theory Spec2Isabelle
  imports Complex_Main
begin

section \<open>Strings\<close>

text \<open>
  A Python \<open>str\<close> is modelled as a \<open>string\<close>: a list of 8-bit characters, each read as the
  code point of the same number (U+0000 to U+00FF). On that range the regular expression
  class \<open>\d\<close> is the ten ASCII digits and \<open>str.strip()\<close> removes the code points
  9 to 13, 28 to 32, 133 and 160.
\<close>

definition is_digit :: "char \<Rightarrow> bool" where
  "is_digit c = (c \<in> set ''0123456789'')"

definition py_isspace :: "char \<Rightarrow> bool" where
  "py_isspace c =
     (let n = (of_char c :: nat)
      in (9 \<le> n \<and> n \<le> 13) \<or> (28 \<le> n \<and> n \<le> 32) \<or> n = 133 \<or> n = 160)"

definition strip :: "string \<Rightarrow> string" where
  "strip s = rev (dropWhile py_isspace (rev (dropWhile py_isspace s)))"

definition startswith :: "string \<Rightarrow> string \<Rightarrow> bool" where
  "startswith s p = (take (length p) s = p)"

text \<open>\<open>s.replace(c, '')\<close> for a one-character \<open>c\<close>.\<close>

definition remove_char :: "char \<Rightarrow> string \<Rightarrow> string" where
  "remove_char c s = filter (\<lambda>x. x \<noteq> c) s"

text \<open>\<open>re.sub(r'[^\d]', '', s)\<close>.\<close>

definition only_digits :: "string \<Rightarrow> string" where
  "only_digits s = filter is_digit s"

section \<open>add\_patients\_to\_channel: phone numbers\<close>

definition normalize_phone :: "string \<Rightarrow> string" where
  "normalize_phone phone0 =
     (let phone = remove_char CHR ''-'' (remove_char CHR '' '' (strip phone0))
      in if phone = [] \<or> length phone < 8 then ''''
         else let digits = (if startswith phone ''+''
                            then ''+'' @ only_digits (drop 1 phone)
                            else only_digits phone)
              in if startswith digits ''09'' \<and> length digits = 10 then ''+251'' @ drop 1 digits
                 else if startswith digits ''+251'' \<and> length digits = 13 then digits
                 else if startswith digits ''251'' \<and> length digits = 12 then ''+'' @ digits
                 else '''')"

text \<open>\<open>str(n)\<close> for an integer, as the f-string \<open>f'FloodWait_{wait}s'\<close> formats it.\<close>

definition digit_char :: "nat \<Rightarrow> char" where
  "digit_char d = ''0123456789'' ! d"

fun str_nat :: "nat \<Rightarrow> string" where
  "str_nat n = (if n < 10 then [digit_char n] else str_nat (n div 10) @ [digit_char (n mod 10)])"

definition str_int :: "int \<Rightarrow> string" where
  "str_int i = (if i < 0 then CHR ''-'' # str_nat (nat (- i)) else str_nat (nat i))"

text \<open>
  \<open>int(s)\<close> on the modelled range: surrounding whitespace is dropped, one sign is allowed,
  then decimal digits, single underscores allowed between digits. \<open>None\<close> is \<open>ValueError\<close>.
  The whitespace that \<open>int\<close> drops is the code points 9 to 13, 32, 133 and 160; unlike
  \<open>str.strip()\<close> it does not take 28 to 31 for whitespace. The interpreter's limit on the
  number of digits (4300 by default) is left out: the one text read back with \<open>py_int\<close> is
  the wait in seconds that the f-string has just formatted.
\<close>

definition int_isspace :: "char \<Rightarrow> bool" where
  "int_isspace c =
     (let n = (of_char c :: nat) in (9 \<le> n \<and> n \<le> 13) \<or> n = 32 \<or> n = 133 \<or> n = 160)"

definition int_strip :: "string \<Rightarrow> string" where
  "int_strip s = rev (dropWhile int_isspace (rev (dropWhile int_isspace s)))"

definition digit_val :: "char \<Rightarrow> nat" where
  "digit_val c = of_char c - 48"

fun no_double_underscore :: "string \<Rightarrow> bool" where
  "no_double_underscore (a # b # cs) =
     (\<not> (a = CHR ''_'' \<and> b = CHR ''_'') \<and> no_double_underscore (b # cs))"
| "no_double_underscore cs = True"

definition nat_literal :: "string \<Rightarrow> nat option" where
  "nat_literal s =
     (if s \<noteq> [] \<and> is_digit (hd s) \<and> is_digit (last s) \<and> no_double_underscore s
         \<and> list_all (\<lambda>c. is_digit c \<or> c = CHR ''_'') s
      then Some (foldl (\<lambda>a c. 10 * a + digit_val c) 0 (filter is_digit s))
      else None)"

definition py_int :: "string \<Rightarrow> int option" where
  "py_int s =
     (case int_strip s of
        [] \<Rightarrow> None
      | c # cs \<Rightarrow>
          if c = CHR ''-'' then map_option (\<lambda>n. - int n) (nat_literal cs)
          else if c = CHR ''+'' then map_option int (nat_literal cs)
          else map_option int (nat_literal (c # cs)))"

text \<open>\<open>s.split()\<close>: the maximal runs of non-whitespace characters.\<close>

fun words_from :: "string \<Rightarrow> string \<Rightarrow> string list" where
  "words_from w [] = (if w = [] then [] else [w])"
| "words_from w (c # cs) =
     (if py_isspace c then (if w = [] then words_from [] cs else w # words_from [] cs)
      else words_from (w @ [c]) cs)"

definition split_ws :: "string \<Rightarrow> string list" where
  "split_ws s = words_from [] s"

text \<open>\<open>' '.join(xs)\<close>.\<close>

fun join_space :: "string list \<Rightarrow> string" where
  "join_space [] = []"
| "join_space [x] = x"
| "join_space (x # y # ys) = x @ '' '' @ join_space (y # ys)"

section \<open>Exceptions, CSV rows, and the trace of a run\<close>

text \<open>
  The exceptions of the client library that the scripts name, and \<open>OtherError\<close> for every
  other subclass of \<open>Exception\<close>. \<open>FloodWaitError\<close> carries \<open>e.seconds\<close>; \<open>message\<close> is
  \<open>str(e)\<close>.
\<close>

datatype exc_kind =
    UserPrivacyRestrictedError | UserAlreadyParticipantError | UserNotMutualContactError
  | UserChannelsTooMuchError | UserKickedError | InputUserDeactivatedError
  | PeerFloodError | FloodWaitError int | UserNotParticipantError | UserIsBlockedError
  | OtherError

datatype exc = Exc (kind: exc_kind) (message: string)

datatype error = FileNotFoundError | AttributeError | TypeError | ValueError | IndexError | OSError

text \<open>
  A row as \<open>csv.DictReader\<close> yields it: the columns of the header, each with its value, and
  \<open>None\<close> for a column the line is too short to fill. \<open>row_get row k d\<close> is
  \<open>row.get(k, d)\<close>; its result \<open>None\<close> is Python's \<open>None\<close>.
\<close>

type_synonym row = "(string \<times> string option) list"

definition row_get :: "row \<Rightarrow> string \<Rightarrow> string option \<Rightarrow> string option" where
  "row_get row k d = (case map_of row k of None \<Rightarrow> d | Some v \<Rightarrow> v)"

text \<open>\<open>row.get(k, '').strip()\<close>: \<open>AttributeError\<close> when the value is \<open>None\<close>.\<close>

definition get_strip :: "row \<Rightarrow> string \<Rightarrow> error + string" where
  "get_strip row k = (case row_get row k (Some []) of None \<Rightarrow> Inl AttributeError | Some v \<Rightarrow> Inr (strip v))"

text \<open>Truth value of an optional string: \<open>None\<close> and \<open>''\<close> are false.\<close>

definition truthy :: "string option \<Rightarrow> bool" where
  "truthy v = (case v of None \<Rightarrow> False | Some s \<Rightarrow> s \<noteq> [])"

text \<open>
  What a run does, in order. \<open>Attempt k\<close> is the progress line printed when the loop takes
  up the item \<open>k\<close>; \<open>Write r\<close> is one row appended to the output CSV; \<open>Sleep d\<close> is
  \<open>asyncio.sleep(d)\<close>; \<open>Remote c\<close> is a request that acts on the account; \<open>Uncaught e\<close>
  is an exception that no handler takes, which ends the process. Look-ups
  (\<open>get_entity\<close>, \<open>GetParticipantRequest\<close>) are not recorded: their answers are part of the
  remote side's answers below. The session calls around the loop (start, disconnect, the look-up of the target
  channel), the other printed lines and the timestamp column are left out.
\<close>

datatype call = ImportContacts | InviteToChannel | DeleteContacts | SendMessage

datatype ('k, 'r) event = Attempt 'k | Write 'r | Sleep rat | Remote call | Uncaught error

fun writes :: "('k, 'r) event list \<Rightarrow> 'r list" where
  "writes [] = []"
| "writes (Write r # t) = r # writes t"
| "writes (_ # t) = writes t"

fun attempts :: "('k, 'r) event list \<Rightarrow> 'k list" where
  "attempts [] = []"
| "attempts (Attempt k # t) = k # attempts t"
| "attempts (_ # t) = attempts t"

fun sleeps :: "('k, 'r) event list \<Rightarrow> rat list" where
  "sleeps [] = []"
| "sleeps (Sleep d # t) = d # sleeps t"
| "sleeps (_ # t) = sleeps t"

fun remotes :: "('k, 'r) event list \<Rightarrow> call list" where
  "remotes [] = []"
| "remotes (Remote c # t) = c # remotes t"
| "remotes (_ # t) = remotes t"

text \<open>
  \<open>random.randint(lo, hi)\<close> as a function of the entropy \<open>r\<close> it consumes: every value of
  the closed interval is reached, and no other (for \<open>lo \<le> hi\<close>, as the constants are).
\<close>

definition randint :: "int \<Rightarrow> int \<Rightarrow> nat \<Rightarrow> int" where
  "randint lo hi r = lo + int (r mod nat (hi - lo + 1))"

datatype ctl = Next | Stop

section \<open>add\_patients\_to\_channel.py\<close>

subsection \<open>Reading the patient CSV\<close>

record patient =
  card_no :: string
  name :: string
  first_name :: string
  last_name :: string
  phone :: string

text \<open>The dictionary \<open>read_patient_csv\<close> appends for a row that passed its checks.\<close>

definition make_patient :: "string \<Rightarrow> string \<Rightarrow> string \<Rightarrow> patient" where
  "make_patient cno nm normalized =
     (let name_parts = split_ws nm
      in \<lparr>card_no = cno, name = nm,
          first_name = (if name_parts \<noteq> [] then hd name_parts else ''Patient''),
          last_name = (if length name_parts > 1 then join_space (tl name_parts) else []),
          phone = normalized\<rparr>)"

text \<open>
  The loop over the rows the reader yields (the two title lines are skipped before the
  header is read). \<open>seen\<close> is \<open>seen_phones\<close>.
\<close>

fun read_patient_rows :: "string set \<Rightarrow> row list \<Rightarrow> error + patient list" where
  "read_patient_rows seen [] = Inr []"
| "read_patient_rows seen (row # rows) =
     (case get_strip row ''Name'' of Inl e \<Rightarrow> Inl e | Inr nm \<Rightarrow>
      case get_strip row ''C-Phone'' of Inl e \<Rightarrow> Inl e | Inr ph \<Rightarrow>
      case get_strip row ''Card No.'' of Inl e \<Rightarrow> Inl e | Inr cno \<Rightarrow>
        if ph = [] then read_patient_rows seen rows
        else let normalized = normalize_phone ph
             in if normalized = [] then read_patient_rows seen rows
                else if normalized \<in> seen then read_patient_rows seen rows
                else (case read_patient_rows (insert normalized seen) rows of
                        Inl e \<Rightarrow> Inl e
                      | Inr ps \<Rightarrow> Inr (make_patient cno nm normalized # ps)))"

text \<open>The file is \<open>None\<close> when the path does not exist.\<close>

definition read_patient_csv :: "row list option \<Rightarrow> error + patient list" where
  "read_patient_csv file =
     (case file of None \<Rightarrow> Inl FileNotFoundError | Some rows \<Rightarrow> read_patient_rows {} rows)"

subsection \<open>The result log\<close>

record result_A =
  r_card_no :: string
  r_name :: string
  r_phone :: string
  r_status :: string
  r_reason :: string

text \<open>The rows of the output file (none when it does not exist).\<close>

definition get_processed_phones :: "result_A list \<Rightarrow> string set" where
  "get_processed_phones log_rows = set (filter (\<lambda>ph. ph \<noteq> []) (map r_phone log_rows))"

definition result_of :: "patient \<Rightarrow> string \<Rightarrow> string \<Rightarrow> result_A" where
  "result_of p st rs =
     \<lparr>r_card_no = card_no p, r_name = name p, r_phone = phone p, r_status = st, r_reason = rs\<rparr>"

subsection \<open>One patient\<close>

text \<open>
  What the remote side answers while one patient is processed: whether
  \<open>resolve_phone_to_user\<close> returns a user (it returns \<open>None\<close> for an empty answer and for
  every exception), and what \<open>GetParticipantRequest\<close> and \<open>InviteToChannelRequest\<close> do
  (\<open>None\<close>: the request returns; \<open>Some e\<close>: it raises \<open>e\<close>).
\<close>

record remote_A =
  user_found :: bool
  participant :: "exc option"
  invite :: "exc option"

record settings =
  daily_limit :: nat
  min_delay :: int
  max_delay :: int

definition settings_A :: settings where
  "settings_A = \<lparr>daily_limit = 9999, min_delay = 15, max_delay = 45\<rparr>"

type_synonym event_A = "(string, result_A) event"

text \<open>
  Step C, the invitation after \<open>UserNotParticipantError\<close>: a status and a reason, or the
  exception that leaves the inner \<open>try\<close> for the handlers of the outer one.
\<close>

definition invite_step :: "exc option \<Rightarrow> exc + string \<times> string" where
  "invite_step r =
     (case r of
        None \<Rightarrow> Inr (''Success'', ''Added'')
      | Some e \<Rightarrow>
          (case kind e of
             UserPrivacyRestrictedError \<Rightarrow> Inr (''Failed'', ''PrivacyRestricted'')
           | UserAlreadyParticipantError \<Rightarrow> Inr (''Skipped'', ''AlreadyMember'')
           | UserNotMutualContactError \<Rightarrow> Inr (''Failed'', ''NotMutualContact'')
           | UserChannelsTooMuchError \<Rightarrow> Inr (''Failed'', ''TooManyChannels'')
           | UserKickedError \<Rightarrow> Inr (''Failed'', ''PreviouslyKicked'')
           | InputUserDeactivatedError \<Rightarrow> Inr (''Failed'', ''Deactivated'')
           | _ \<Rightarrow> Inl e))"

text \<open>The invitation tried anyway when the participant check raised something else.\<close>

definition invite_anyway :: "exc option \<Rightarrow> string \<times> string" where
  "invite_anyway r =
     (case r of
        None \<Rightarrow> (''Success'', ''Added'')
      | Some e \<Rightarrow>
          if kind e = UserAlreadyParticipantError then (''Skipped'', ''AlreadyMember'')
          else (''Failed'', take 50 (message e)))"

text \<open>
  From "Log result" to the end of the loop body: the row, the random delay, the clean-up of
  the imported contact. \<open>n\<close> is \<open>len(remaining)\<close>, \<open>i\<close> the index of the patient.
\<close>

definition log_and_pace ::
  "settings \<Rightarrow> nat \<Rightarrow> nat \<Rightarrow> nat \<Rightarrow> patient \<Rightarrow> string \<Rightarrow> string \<Rightarrow> bool \<Rightarrow> nat \<Rightarrow> event_A list" where
  "log_and_pace cfg n i count p st rs user r =
     [Write (result_of p st rs)]
     @ (if count < daily_limit cfg \<and> i < n - 1
        then [Sleep (of_int (randint (min_delay cfg) (max_delay cfg) r))] else [])
     @ (if user then [Remote DeleteContacts] else [])"

text \<open>
  The loop body after the limit check and the progress line: the events, the new \<open>count\<close>,
  and whether the loop goes on (\<open>continue\<close> or the end of the body) or \<open>break\<close>s.
\<close>

definition process_patient ::
  "settings \<Rightarrow> bool \<Rightarrow> nat \<Rightarrow> nat \<Rightarrow> nat \<Rightarrow> patient \<Rightarrow> remote_A \<Rightarrow> nat
     \<Rightarrow> event_A list \<times> nat \<times> ctl" where
  "process_patient cfg dry_run n i count p rm r =
     (if dry_run
      then ([Write (result_of p ''DryRun'' ''Simulated''), Sleep (1 / 2)], count + 1, Next)
      else if \<not> user_found rm
      then (Remote ImportContacts # log_and_pace cfg n i count p ''Failed'' ''NotOnTelegram'' False r,
            count, Next)
      else
        (case participant rm of
           None \<Rightarrow>
             (Remote ImportContacts # log_and_pace cfg n i count p ''Skipped'' ''AlreadyMember'' True r,
              count, Next)
         | Some pe \<Rightarrow>
             if kind pe = UserNotParticipantError
             then
               (case invite_step (invite rm) of
                  Inr (st, rs) \<Rightarrow>
                    (let count' = (if st = ''Success'' then count + 1 else count)
                     in ([Remote ImportContacts, Remote InviteToChannel]
                           @ log_and_pace cfg n i count' p st rs True r, count', Next))
                | Inl e \<Rightarrow>
                    (case kind e of
                       PeerFloodError \<Rightarrow>
                         ([Remote ImportContacts, Remote InviteToChannel,
                           Write (result_of p ''Failed'' ''PeerFlood'')], count, Stop)
                     | FloodWaitError wait \<Rightarrow>
                         if wait > 600
                         then ([Remote ImportContacts, Remote InviteToChannel,
                                Write (result_of p ''Failed'' (''FloodWait_'' @ str_int wait @ ''s''))],
                               count, Stop)
                         else ([Remote ImportContacts, Remote InviteToChannel, Sleep (of_int wait)],
                               count, Next)
                     | _ \<Rightarrow>
                         ([Remote ImportContacts, Remote InviteToChannel]
                            @ log_and_pace cfg n i count p ''Failed'' (take 50 (message e)) True r,
                          count, Next)))
             else
               (case invite_anyway (invite rm) of
                  (st, rs) \<Rightarrow>
                    (let count' = (if st = ''Success'' then count + 1 else count)
                     in ([Remote ImportContacts, Remote InviteToChannel]
                           @ log_and_pace cfg n i count' p st rs True r, count', Next)))))"

subsection \<open>The loop and main\<close>

text \<open>
  \<open>rm i\<close> and \<open>rnd i\<close> are the remote side's answers and the entropy during iteration \<open>i\<close>.
\<close>

fun loop_A ::
  "settings \<Rightarrow> bool \<Rightarrow> (nat \<Rightarrow> remote_A) \<Rightarrow> (nat \<Rightarrow> nat) \<Rightarrow> nat \<Rightarrow> nat \<Rightarrow> nat \<Rightarrow> patient list
     \<Rightarrow> event_A list" where
  "loop_A cfg dry_run rm rnd n i count [] = []"
| "loop_A cfg dry_run rm rnd n i count (p # ps) =
     (if count \<ge> daily_limit cfg then []
      else (case process_patient cfg dry_run n i count p (rm i) (rnd i) of
              (evs, count', Next) \<Rightarrow>
                Attempt (phone p) # evs @ loop_A cfg dry_run rm rnd n (Suc i) count' ps
            | (evs, count', Stop) \<Rightarrow> Attempt (phone p) # evs))"

record world_A =
  dry_run_flag :: bool
  authorized :: bool
  csv_file :: "row list option"
  output_file :: "result_A list"
  channel_found :: bool
  answers :: "nat \<Rightarrow> remote_A"
  entropy :: "nat \<Rightarrow> nat"

definition remaining_A :: "world_A \<Rightarrow> patient list \<Rightarrow> patient list" where
  "remaining_A w patients =
     filter (\<lambda>p. phone p \<notin> get_processed_phones (output_file w)) patients"

definition main_A :: "settings \<Rightarrow> world_A \<Rightarrow> event_A list" where
  "main_A cfg w =
     (if \<not> authorized w then []
      else case read_patient_csv (csv_file w) of
             Inl e \<Rightarrow> []
           | Inr patients \<Rightarrow>
               (let remaining = remaining_A w patients
                in if remaining = [] then []
                   else if \<not> channel_found w then []
                   else loop_A cfg (dry_run_flag w) (answers w) (entropy w)
                          (length remaining) 0 0 remaining))"





section \<open>safe\_dm\_invite.py\<close>

record result_S =
  s_user_id :: "string option"
  s_username :: "string option"
  s_first_name :: string
  s_status :: string
  s_reason :: string

text \<open>The user ids of the rows of the output file (none when it does not exist).\<close>

definition get_processed_users :: "result_S list \<Rightarrow> string set" where
  "get_processed_users log_rows =
     set (map (\<lambda>r. the (s_user_id r)) (filter (\<lambda>r. truthy (s_user_id r)) log_rows))"

text \<open>
  What the remote side answers while one user is processed: whether the two look-ups
  (by username, then by \<open>int(user_id)\<close>, every exception swallowed) leave an entity, and what
  \<open>send_message\<close> does.
\<close>

record remote_S =
  entity_found :: bool
  send :: "exc option"

definition settings_S :: settings where
  "settings_S = \<lparr>daily_limit = 35, min_delay = 60, max_delay = 300\<rparr>"

type_synonym event_S = "(string option, result_S) event"

definition result_S_of :: "row \<Rightarrow> string \<Rightarrow> string \<Rightarrow> string \<Rightarrow> result_S" where
  "result_S_of user fn st rs =
     \<lparr>s_user_id = row_get user ''user_id'' None, s_username = row_get user ''username'' None,
      s_first_name = fn, s_status = st, s_reason = rs\<rparr>"

text \<open>From "Log result" to the end of the loop body.\<close>

definition log_and_wait ::
  "settings \<Rightarrow> nat \<Rightarrow> row \<Rightarrow> string \<Rightarrow> string \<Rightarrow> string \<Rightarrow> nat \<Rightarrow> event_S list" where
  "log_and_wait cfg count user fn st rs r =
     [Write (result_S_of user fn st rs)]
     @ (if count < daily_limit cfg
        then [Sleep (of_int (randint (min_delay cfg) (max_delay cfg) r))] else [])"

text \<open>
  The loop body from the dry-run test on; \<open>fn\<close> is \<open>first_name\<close>. \<open>status\<close> starts as
  \<open>Failed\<close> and only a sent message changes it.
\<close>

definition process_user ::
  "settings \<Rightarrow> bool \<Rightarrow> nat \<Rightarrow> row \<Rightarrow> string \<Rightarrow> remote_S \<Rightarrow> nat \<Rightarrow> event_S list \<times> nat \<times> ctl" where
  "process_user cfg dry_run count user fn rm r =
     (if dry_run then ([Sleep 1], count + 1, Next)
      else if entity_found rm
      then
        (case send rm of
           None \<Rightarrow>
             (Remote SendMessage # log_and_wait cfg (count + 1) user fn ''Success'' ''Sent'' r,
              count + 1, Next)
         | Some e \<Rightarrow>
             (case kind e of
                PeerFloodError \<Rightarrow>
                  ([Remote SendMessage, Write (result_S_of user fn ''Failed'' ''PeerFlood'')],
                   count, Stop)
              | UserPrivacyRestrictedError \<Rightarrow>
                  (Remote SendMessage # log_and_wait cfg count user fn ''Failed'' ''PrivacyRestricted'' r,
                   count, Next)
              | UserIsBlockedError \<Rightarrow>
                  (Remote SendMessage # log_and_wait cfg count user fn ''Failed'' ''Blocked'' r,
                   count, Next)
              | FloodWaitError seconds \<Rightarrow> ([Remote SendMessage], count, Stop)
              | _ \<Rightarrow>
                  (Remote SendMessage # log_and_wait cfg count user fn ''Failed'' (take 50 (message e)) r,
                   count, Next)))
      else (log_and_wait cfg count user fn ''Failed'' ''UserNotFound'' r, count, Next))"

text \<open>
  The loop. \<open>user.get('first_name', 'Friend')\<close> is \<open>None\<close> for a line too short to fill the
  column; \<open>str.replace\<close> then raises \<open>TypeError\<close>, outside every \<open>try\<close>.
\<close>

fun loop_S ::
  "settings \<Rightarrow> bool \<Rightarrow> (nat \<Rightarrow> remote_S) \<Rightarrow> (nat \<Rightarrow> nat) \<Rightarrow> nat \<Rightarrow> nat \<Rightarrow> row list
     \<Rightarrow> event_S list" where
  "loop_S cfg dry_run rm rnd i count [] = []"
| "loop_S cfg dry_run rm rnd i count (user # users) =
     (if count \<ge> daily_limit cfg then []
      else (case row_get user ''first_name'' (Some ''Friend'') of
              None \<Rightarrow> [Uncaught TypeError]
            | Some fn \<Rightarrow>
                (case process_user cfg dry_run count user fn (rm i) (rnd i) of
                   (evs, count', Next) \<Rightarrow>
                     Attempt (row_get user ''user_id'' None) # evs
                       @ loop_S cfg dry_run rm rnd (Suc i) count' users
                 | (evs, count', Stop) \<Rightarrow> Attempt (row_get user ''user_id'' None) # evs)))"

record world_S =
  dry_run_flag_S :: bool
  authorized_S :: bool
  csv_file_S :: "row list option"
  output_file_S :: "result_S list"
  answers_S :: "nat \<Rightarrow> remote_S"
  entropy_S :: "nat \<Rightarrow> nat"

definition users_to_contact :: "world_S \<Rightarrow> row list \<Rightarrow> row list" where
  "users_to_contact w rows =
     filter (\<lambda>row. truthy (row_get row ''user_id'' None)
                  \<and> the (row_get row ''user_id'' None) \<notin> get_processed_users (output_file_S w)) rows"

definition main_S :: "settings \<Rightarrow> world_S \<Rightarrow> event_S list" where
  "main_S cfg w =
     (if \<not> authorized_S w then []
      else case csv_file_S w of
             None \<Rightarrow> []
           | Some rows \<Rightarrow>
               if users_to_contact w rows = [] then []
               else loop_S cfg (dry_run_flag_S w) (answers_S w) (entropy_S w) 0 0
                      (users_to_contact w rows))"

section \<open>invite\_users\_to\_channel.py\<close>

subsection \<open>Reading the users\<close>

record user =
  user_id :: string
  username :: string
  user_first_name :: "string option"
  user_last_name :: "string option"

fun read_user_rows :: "string set \<Rightarrow> row list \<Rightarrow> error + user list" where
  "read_user_rows seen [] = Inr []"
| "read_user_rows seen (row # rows) =
     (case get_strip row ''user_id'' of Inl e \<Rightarrow> Inl e | Inr uid \<Rightarrow>
      case get_strip row ''username'' of Inl e \<Rightarrow> Inl e | Inr un \<Rightarrow>
        if uid = [] \<and> un = [] then read_user_rows seen rows
        else if uid \<noteq> [] \<and> uid \<in> seen then read_user_rows seen rows
        else (case read_user_rows (if uid \<noteq> [] then insert uid seen else seen) rows of
                Inl e \<Rightarrow> Inl e
              | Inr us \<Rightarrow>
                  Inr (\<lparr>user_id = uid, username = un,
                        user_first_name = row_get row ''first_name'' (Some []),
                        user_last_name = row_get row ''last_name'' (Some [])\<rparr> # us)))"

definition read_users_from_csv :: "row list option \<Rightarrow> error + user list" where
  "read_users_from_csv file =
     (case file of None \<Rightarrow> Inl FileNotFoundError | Some rows \<Rightarrow> read_user_rows {} rows)"

subsection \<open>One user\<close>

record result_I =
  i_user_id :: string
  i_username :: string
  i_first_name :: "string option"
  i_last_name :: "string option"
  i_status :: string
  i_reason :: string

text \<open>
  What the remote side answers while one user is processed: whether \<open>get_user_entity\<close>
  returns an entity, whether \<open>is_user_in_channel\<close> returns true (it returns false for every
  exception), and what \<open>InviteToChannelRequest\<close> does.
\<close>

record remote_I =
  entity_I :: bool
  member_I :: bool
  invite_I :: "exc option"

definition add_user_to_channel :: "exc option \<Rightarrow> bool \<times> string" where
  "add_user_to_channel r =
     (case r of
        None \<Rightarrow> (True, ''Success'')
      | Some e \<Rightarrow>
          (case kind e of
             UserPrivacyRestrictedError \<Rightarrow> (False, ''UserPrivacyRestricted'')
           | UserAlreadyParticipantError \<Rightarrow> (False, ''AlreadyParticipant'')
           | UserNotMutualContactError \<Rightarrow> (False, ''NotMutualContact'')
           | UserChannelsTooMuchError \<Rightarrow> (False, ''ChannelsTooMuch'')
           | UserKickedError \<Rightarrow> (False, ''UserKicked'')
           | InputUserDeactivatedError \<Rightarrow> (False, ''UserDeactivated'')
           | PeerFloodError \<Rightarrow> (False, ''PeerFlood'')
           | FloodWaitError wait_time \<Rightarrow> (False, ''FloodWait_'' @ str_int wait_time @ ''s'')
           | _ \<Rightarrow> (False, ''Error: '' @ take 50 (message e))))"

text \<open>\<open>s.split(c)\<close> and \<open>s.rstrip(c)\<close> for a one-character \<open>c\<close>.\<close>

fun split_on :: "char \<Rightarrow> string \<Rightarrow> string list" where
  "split_on c [] = [[]]"
| "split_on c (x # xs) =
     (if x = c then [] # split_on c xs
      else (case split_on c xs of [] \<Rightarrow> [[x]] | p # ps \<Rightarrow> (x # p) # ps))"

definition rstrip_char :: "char \<Rightarrow> string \<Rightarrow> string" where
  "rstrip_char c s = rev (dropWhile (\<lambda>x. x = c) (rev s))"

text \<open>\<open>int(reason.split("_")[1].rstrip("s"))\<close>.\<close>

definition wait_seconds_of :: "string \<Rightarrow> error + int" where
  "wait_seconds_of reason =
     (case split_on CHR ''_'' reason of
        a # b # rest \<Rightarrow>
          (case py_int (rstrip_char CHR ''s'' b) of None \<Rightarrow> Inl ValueError | Some w \<Rightarrow> Inr w)
      | _ \<Rightarrow> Inl IndexError)"

type_synonym event_I = "(string \<times> string, result_I) event"

definition result_I_of :: "user \<Rightarrow> string \<Rightarrow> string \<Rightarrow> result_I" where
  "result_I_of u st rs =
     \<lparr>i_user_id = user_id u, i_username = username u, i_first_name = user_first_name u,
      i_last_name = user_last_name u, i_status = st, i_reason = rs\<rparr>"

text \<open>
  The body of the inner loop up to "Record result": the events, and the row for
  \<open>results\<close> or the exception that leaves \<open>invite_users_to_channel\<close>.
\<close>

definition process_user_I :: "remote_I \<Rightarrow> user \<Rightarrow> event_I list \<times> (error + result_I)" where
  "process_user_I rm u =
     (if \<not> entity_I rm then ([], Inr (result_I_of u ''Failed'' ''UserNotFound''))
      else if member_I rm then ([], Inr (result_I_of u ''Skipped'' ''AlreadyMember''))
      else (case add_user_to_channel (invite_I rm) of
              (success, reason) \<Rightarrow>
                if success then ([Remote InviteToChannel], Inr (result_I_of u ''Success'' reason))
                else if startswith reason ''FloodWait_''
                then (case wait_seconds_of reason of
                        Inl e \<Rightarrow> ([Remote InviteToChannel], Inl e)
                      | Inr wait_seconds \<Rightarrow>
                          ([Remote InviteToChannel, Sleep (of_int wait_seconds)],
                           Inr (result_I_of u ''Failed'' reason)))
                else ([Remote InviteToChannel], Inr (result_I_of u ''Failed'' reason))))"

subsection \<open>The batches and main\<close>

text \<open>
  One batch: each user's events, then the one-second sleep, the rows collected in
  \<open>results\<close>. The rows reach the file only when the batch is over.
\<close>

fun process_batch ::
  "(nat \<Rightarrow> remote_I) \<Rightarrow> nat \<Rightarrow> user list \<Rightarrow> event_I list \<times> (error + result_I list)" where
  "process_batch rm i [] = ([], Inr [])"
| "process_batch rm i (u # us) =
     (case process_user_I (rm i) u of
        (evs, Inl e) \<Rightarrow> (Attempt (user_id u, username u) # evs, Inl e)
      | (evs, Inr row) \<Rightarrow>
          (case process_batch rm (Suc i) us of
             (evs', Inl e) \<Rightarrow> (Attempt (user_id u, username u) # evs @ [Sleep 1] @ evs', Inl e)
           | (evs', Inr results) \<Rightarrow>
               (Attempt (user_id u, username u) # evs @ [Sleep 1] @ evs', Inr (row # results))))"

text \<open>
  The outer loop over \<open>range(0, total_users, BATCH_SIZE)\<close>, for a positive \<open>BATCH_SIZE\<close>;
  \<open>users\<close> is what is left from index \<open>i\<close> on. An exception ends the function without
  writing the rows of the batch (\<open>main\<close> catches and prints it).
\<close>

function batch_loop ::
  "nat \<Rightarrow> int \<Rightarrow> (nat \<Rightarrow> remote_I) \<Rightarrow> nat \<Rightarrow> user list \<Rightarrow> event_I list" where
  "batch_loop bs delay rm i users =
     (if bs = 0 \<or> users = [] then []
      else (case process_batch rm i (take bs users) of
              (evs, Inl e) \<Rightarrow> evs
            | (evs, Inr results) \<Rightarrow>
                evs @ map Write results
                  @ (if bs < length users then [Sleep (of_int delay)] else [])
                  @ batch_loop bs delay rm (i + bs) (drop bs users)))"
  by pat_completeness auto
termination
  by (relation "measure (\<lambda>(bs, delay, rm, i, users). length users)") auto

declare batch_loop.simps [simp del]

record settings_I =
  batch_size :: int
  batch_delay :: int

record world_I =
  authorized_I :: bool
  csv_file_I :: "row list option"
  output_file_I :: "result_I list"
  channel_found_I :: bool
  answers_I :: "nat \<Rightarrow> remote_I"

text \<open>
  \<open>invite_users_to_channel\<close>. \<open>range\<close> with a step of zero raises \<open>ValueError\<close>, which
  \<open>main\<close> catches, and with a negative step it is empty: no user is processed either way.
  The output file is never read.
\<close>

definition invite_users_to_channel :: "settings_I \<Rightarrow> world_I \<Rightarrow> event_I list" where
  "invite_users_to_channel cfg w =
     (if \<not> authorized_I w then []
      else case read_users_from_csv (csv_file_I w) of
             Inl e \<Rightarrow> []
           | Inr users \<Rightarrow>
               if users = [] then []
               else if \<not> channel_found_I w then []
               else if batch_size cfg \<le> 0 then []
               else batch_loop (nat (batch_size cfg)) (batch_delay cfg) (answers_I w) 0 users)"

text \<open>
  The process: the module reads \<open>BATCH_SIZE\<close> and \<open>BATCH_DELAY\<close> with \<open>int\<close>, raises
  \<open>ValueError\<close> for a missing credential or target and for a non-numeric \<open>TG_API_ID\<close>, and
  calls \<open>int(API_ID)\<close>; each uncaught exception is exit code 1. \<open>main\<close> catches every
  exception of \<open>invite_users_to_channel\<close>, those of the file system included: the function
  then ends where it stands, and the exit code is 0. \<open>stop_after\<close> says after how many events such
  an exception is raised (\<open>None\<close>: never).
\<close>





section \<open>Concrete runs\<close>

text \<open>Inputs on which the definitions above are evaluated further down.\<close>

definition abebe :: row where
  "abebe = [(''user_id'', Some ''1001''), (''username'', Some ''abebe''), (''first_name'', Some ''Abebe'')]"

definition sara :: row where
  "sara = [(''user_id'', Some ''1002''), (''username'', Some ''sara''), (''first_name'', Some ''Sara'')]"

text \<open>\<open>safe_dm_invite\<close>: an authorised session, no earlier log, every message is delivered.\<close>

definition world_S_ok :: "bool \<Rightarrow> row list \<Rightarrow> world_S" where
  "world_S_ok dry rows =
     \<lparr>dry_run_flag_S = dry, authorized_S = True, csv_file_S = Some rows, output_file_S = [],
      answers_S = (\<lambda>i. \<lparr>entity_found = True, send = None\<rparr>), entropy_S = (\<lambda>i. 7)\<rparr>"

definition almaz :: row where
  "almaz = [(''Card No.'', Some ''17''), (''Name'', Some ''Almaz Kebede''), (''C-Phone'', Some ''0911223344'')]"

definition dawit :: row where
  "dawit = [(''Card No.'', Some ''18''), (''Name'', Some ''Dawit''), (''C-Phone'', Some ''+251 922 334455'')]"


text \<open>
  \<open>add_patients_to_channel\<close>: an authorised session and a channel that is found; the
  patient file, the earlier log, the limit and the remote side's answers vary.
\<close>

definition world_A_of :: "bool \<Rightarrow> row list option \<Rightarrow> result_A list \<Rightarrow> (nat \<Rightarrow> remote_A) \<Rightarrow> world_A" where
  "world_A_of dry file log_rows rm =
     \<lparr>dry_run_flag = dry, authorized = True, csv_file = file, output_file = log_rows,
      channel_found = True, answers = rm, entropy = (\<lambda>i. 7)\<rparr>"

text \<open>The patient is on Telegram, not yet in the channel, and the invitation does this.\<close>

definition invited :: "exc option \<Rightarrow> remote_A" where
  "invited r =
     \<lparr>user_found = True, participant = Some (Exc UserNotParticipantError ''not a participant''),
      invite = r\<rparr>"




text \<open>
  \<open>invite_users_to_channel\<close>: an authorised session and a channel that is found; every
  user resolves and is not yet a member.
\<close>

definition world_I_of :: "row list option \<Rightarrow> result_I list \<Rightarrow> (nat \<Rightarrow> exc option) \<Rightarrow> world_I" where
  "world_I_of file log_rows ans =
     \<lparr>authorized_I = True, csv_file_I = file, output_file_I = log_rows, channel_found_I = True,
      answers_I = (\<lambda>i. \<lparr>entity_I = True, member_I = False, invite_I = ans i\<rparr>)\<rparr>"

definition settings_I_default :: settings_I where
  "settings_I_default = \<lparr>batch_size = 10, batch_delay = 5\<rparr>"

definition logged_abebe :: result_I where
  "logged_abebe =
     \<lparr>i_user_id = ''1001'', i_username = ''abebe'', i_first_name = Some ''Abebe'',
      i_last_name = Some [], i_status = ''Success'', i_reason = ''Success''\<rparr>"

definition logged_almaz :: result_A where
  "logged_almaz =
     \<lparr>r_card_no = ''17'', r_name = ''Almaz Kebede'', r_phone = ''+251911223344'',
      r_status = ''Failed'', r_reason = ''PrivacyRestricted''\<rparr>"

definition p_almaz :: patient where
  "p_almaz = make_patient ''17'' ''Almaz Kebede'' ''+251911223344''"

definition p_dawit :: patient where
  "p_dawit = make_patient ''18'' ''Dawit'' ''+251922334455''"


definition u_abebe :: user where
  "u_abebe = \<lparr>user_id = ''1001'', username = ''abebe'', user_first_name = Some ''Abebe'',
              user_last_name = Some []\<rparr>"

definition u_sara :: user where
  "u_sara = \<lparr>user_id = ''1002'', username = ''sara'', user_first_name = Some ''Sara'',
             user_last_name = Some []\<rparr>"

text \<open>The answers of the remote side: the first request raises \<open>e\<close>, the later ones return.\<close>

definition first_raises :: "exc \<Rightarrow> nat \<Rightarrow> exc option" where
  "first_raises e i = (if i = 0 then Some e else None)"

definition peer_flood :: exc where
  "peer_flood = Exc PeerFloodError ''Too many requests''"

definition flood_wait :: "int \<Rightarrow> exc" where
  "flood_wait w = Exc (FloodWaitError w) ''A wait is required''"

text \<open>\<open>safe_dm_invite\<close> without \<open>--dry-run\<close>: every entity resolves, \<open>send_message\<close> does this.\<close>

definition world_S_send :: "row list \<Rightarrow> (nat \<Rightarrow> exc option) \<Rightarrow> world_S" where
  "world_S_send rows ans =
     \<lparr>dry_run_flag_S = False, authorized_S = True, csv_file_S = Some rows, output_file_S = [],
      answers_S = (\<lambda>i. \<lparr>entity_found = True, send = ans i\<rparr>), entropy_S = (\<lambda>i. 7)\<rparr>"

definition almaz_again :: row where
  "almaz_again = [(''Card No.'', Some ''99''), (''Name'', Some ''A. Kebede''), (''C-Phone'', Some ''+251-911-223344'')]"

definition anon_bob :: row where
  "anon_bob = [(''user_id'', Some []), (''username'', Some ''bob'')]"

definition u_bob :: user where
  "u_bob = \<lparr>user_id = [], username = ''bob'', user_first_name = Some [], user_last_name = Some []\<rparr>"

section \<open>Predicates used in the statements\<close>



text \<open>
  The invitation of \<open>add_patients_to_channel\<close> raises an exception of kind \<open>k\<close> that reaches
  the handlers of the outer \<open>try\<close>: the patient was resolved, the participant check raised
  \<open>UserNotParticipantError\<close>, and \<open>InviteToChannelRequest\<close> raised \<open>k\<close>.
\<close>

definition raised_to_runner :: "remote_A \<Rightarrow> exc_kind \<Rightarrow> bool" where
  "raised_to_runner rm k =
     (user_found rm \<and> map_option kind (participant rm) = Some UserNotParticipantError
      \<and> map_option kind (invite rm) = Some k)"

text \<open>\<open>send_message\<close> of \<open>safe_dm_invite\<close> is reached and raises an exception of kind \<open>k\<close>.\<close>

definition send_raises :: "remote_S \<Rightarrow> exc_kind \<Rightarrow> bool" where
  "send_raises rm k = (entity_found rm \<and> map_option kind (send rm) = Some k)"

text \<open>
  The invitation of \<open>invite_users_to_channel\<close> is reached and raises an exception of kind
  \<open>k\<close>.
\<close>

definition invite_raises :: "remote_I \<Rightarrow> exc_kind \<Rightarrow> bool" where
  "invite_raises rm k = (entity_I rm \<and> \<not> member_I rm \<and> map_option kind (invite_I rm) = Some k)"

text \<open>The rows that the users from index \<open>i\<close> on add to \<open>results\<close>, one after the other.\<close>

fun rows_from :: "(nat \<Rightarrow> remote_I) \<Rightarrow> nat \<Rightarrow> user list \<Rightarrow> result_I list" where
  "rows_from rm i [] = []"
| "rows_from rm i (u # us) =
     (case snd (process_user_I (rm i) u) of Inl e \<Rightarrow> [] | Inr row \<Rightarrow> [row]) @ rows_from rm (Suc i) us"


definition successes :: "('r \<Rightarrow> string) \<Rightarrow> ('k, 'r) event list \<Rightarrow> nat" where
  "successes st t = length (filter (\<lambda>r. st r = ''Success'') (writes t))"

text \<open>
  Every item that is taken up gets exactly one row, and the row is written before any sleep
  of that item. \<open>pending\<close> says that the item taken up last has no row yet.
\<close>

fun recorded_before_sleep :: "bool \<Rightarrow> ('k, 'r) event list \<Rightarrow> bool" where
  "recorded_before_sleep pending [] = (\<not> pending)"
| "recorded_before_sleep pending (Attempt k # t) = (\<not> pending \<and> recorded_before_sleep True t)"
| "recorded_before_sleep pending (Write r # t) = (pending \<and> recorded_before_sleep False t)"
| "recorded_before_sleep pending (Sleep d # t) = (\<not> pending \<and> recorded_before_sleep pending t)"
| "recorded_before_sleep pending (Remote c # t) = recorded_before_sleep pending t"
| "recorded_before_sleep pending (Uncaught e # t) = recorded_before_sleep pending t"

text \<open>
  The invitation of \<open>add_patients_to_channel\<close> raises a \<open>FloodWaitError\<close> of at most 600
  seconds that reaches the handlers of the outer \<open>try\<close>.
\<close>

definition short_wait :: "remote_A \<Rightarrow> bool" where
  "short_wait rm =
     (user_found rm \<and> map_option kind (participant rm) = Some UserNotParticipantError
      \<and> (case map_option kind (invite rm) of Some (FloodWaitError w) \<Rightarrow> w \<le> 600 | _ \<Rightarrow> False))"

text \<open>\<open>send_message\<close> of \<open>safe_dm_invite\<close> is reached and raises a \<open>FloodWaitError\<close>.\<close>

definition send_flood_wait :: "remote_S \<Rightarrow> bool" where
  "send_flood_wait rm =
     (entity_found rm
      \<and> (case map_option kind (send rm) of Some (FloodWaitError w) \<Rightarrow> True | _ \<Rightarrow> False))"

text \<open>
  What the readers take from a row: a stripped cell, the key of a row of the patient file (its
  normalised phone number, empty for a row that is skipped), and the entries built from a row.
\<close>

definition cell :: "row \<Rightarrow> string \<Rightarrow> string" where
  "cell row k = (case get_strip row k of Inl e \<Rightarrow> [] | Inr v \<Rightarrow> v)"

definition key_of_row :: "row \<Rightarrow> string" where
  "key_of_row row = normalize_phone (cell row ''C-Phone'')"

definition patient_of_row :: "row \<Rightarrow> patient" where
  "patient_of_row row = make_patient (cell row ''Card No.'') (cell row ''Name'') (key_of_row row)"

definition user_of_row :: "row \<Rightarrow> user" where
  "user_of_row row =
     \<lparr>user_id = cell row ''user_id'', username = cell row ''username'',
      user_first_name = row_get row ''first_name'' (Some []),
      user_last_name = row_get row ''last_name'' (Some [])\<rparr>"

section \<open>Properties of normalize\_phone\<close>

lemma only_digits_all: "\<forall>c \<in> set (only_digits s). is_digit c"
  by (simp add: only_digits_def)

lemma plus_not_digit: "\<not> is_digit CHR ''+''"
  by (simp add: is_digit_def)

lemma startswith_split: "startswith s p \<Longrightarrow> s = p @ drop (length p) s"
  unfolding startswith_def by (metis append_take_drop_id)


lemma digit_not_space: "is_digit c \<Longrightarrow> \<not> py_isspace c"
  by (auto simp: is_digit_def py_isspace_def)










section \<open>Traces\<close>

lemma writes_append [simp]: "writes (a @ b) = writes a @ writes b"
  by (induction a rule: writes.induct) auto

lemma attempts_append [simp]: "attempts (a @ b) = attempts a @ attempts b"
  by (induction a rule: attempts.induct) auto

lemma sleeps_append [simp]: "sleeps (a @ b) = sleeps a @ sleeps b"
  by (induction a rule: sleeps.induct) auto

lemma remotes_append [simp]: "remotes (a @ b) = remotes a @ remotes b"
  by (induction a rule: remotes.induct) auto

section \<open>Dry runs\<close>

lemma process_user_dry: "process_user cfg True count user fn rm r = ([Sleep 1], count + 1, Next)"
  by (simp add: process_user_def)

lemma loop_S_dry:
  "writes (loop_S cfg True rm rnd i count users) = []
   \<and> remotes (loop_S cfg True rm rnd i count users) = []"
  by (induction users arbitrary: i count) (auto simp: process_user_dry split: option.splits)

text \<open>
  Claim C6 says that a dry run writes one \<open>DryRun\<close> record per item processed and invokes no
  remote action. In \<open>safe_dm_invite\<close> the dry-run branch sets \<open>status\<close> and \<open>reason\<close> and
  then \<open>continue\<close>s before \<open>write_result\<close>: a dry run invokes no remote action, and it
  writes no record at all, whatever the input.
\<close>

theorem safe_dm_dry_run_no_record:
  "dry_run_flag_S w \<Longrightarrow> writes (main_S cfg w) = [] \<and> remotes (main_S cfg w) = []"
  by (simp add: main_S_def loop_S_dry split: option.splits)

theorem safe_dm_dry_run_no_record_witness:
  "dry_run_flag_S (world_S_ok True [abebe])
   \<and> attempts (main_S settings_S (world_S_ok True [abebe])) = [Some ''1001'']
   \<and> writes (main_S settings_S (world_S_ok True [abebe])) = []"
  using safe_dm_dry_run_no_record [of "world_S_ok True [abebe]" settings_S]
  by (simp add: main_S_def world_S_ok_def users_to_contact_def get_processed_users_def abebe_def
      row_get_def truthy_def settings_S_def process_user_def)

text \<open>
  \<open>add_patients_to_channel\<close> writes the record before its \<open>continue\<close>: a dry run
  invokes no remote action and writes one \<open>DryRun\<close> record for each item it takes up, at
  most as many as the limit.
\<close>

lemma process_patient_dry:
  "process_patient cfg True n i c p rm r =
     ([Write (result_of p ''DryRun'' ''Simulated''), Sleep (1 / 2)], c + 1, Next)"
  by (simp add: process_patient_def)

lemma loop_A_dry:
  "remotes (loop_A cfg True rm rnd n i c ps) = []
   \<and> list_all (\<lambda>r. r_status r = ''DryRun'') (writes (loop_A cfg True rm rnd n i c ps))
   \<and> length (writes (loop_A cfg True rm rnd n i c ps)) = length (attempts (loop_A cfg True rm rnd n i c ps))
   \<and> c + length (writes (loop_A cfg True rm rnd n i c ps)) \<le> max c (daily_limit cfg)"
proof (induction ps arbitrary: i c)
  case Nil
  then show ?case by simp
next
  case (Cons p ps)
  show ?case
  proof (cases "c \<ge> daily_limit cfg")
    case True
    then show ?thesis by simp
  next
    case False
    then show ?thesis
      using Cons.IH [of "Suc i" "Suc c"] by (simp add: process_patient_dry result_of_def)
  qed
qed

lemma add_patients_dry_run:
  "dry_run_flag w \<Longrightarrow>
   remotes (main_A cfg w) = []
   \<and> list_all (\<lambda>r. r_status r = ''DryRun'') (writes (main_A cfg w))
   \<and> length (writes (main_A cfg w)) = length (attempts (main_A cfg w))
   \<and> length (writes (main_A cfg w)) \<le> daily_limit cfg"
proof (cases "read_patient_csv (csv_file w)")
  case (Inl e)
  then show ?thesis by (simp add: main_A_def)
next
  case (Inr patients)
  assume "dry_run_flag w"
  then show ?thesis
    using Inr loop_A_dry [of cfg "answers w" "entropy w" "length (remaining_A w patients)" 0 0
        "remaining_A w patients"]
    by (simp add: main_A_def Let_def)
qed

section \<open>Pacing\<close>

text \<open>
  Claim C9 says that no inter-item sleep follows the last item. \<open>safe_dm_invite\<close> tests
  only \<open>count < DAILY_LIMIT\<close> before the random sleep: with one user to contact and the
  message delivered, the run ends with a sleep of \<open>randint(60, 300)\<close> seconds.
\<close>

theorem safe_dm_sleeps_after_last_item:
  "main_S settings_S (world_S_ok False [abebe]) =
     [Attempt (Some ''1001''), Remote SendMessage,
      Write \<lparr>s_user_id = Some ''1001'', s_username = Some ''abebe'', s_first_name = ''Abebe'',
             s_status = ''Success'', s_reason = ''Sent''\<rparr>,
      Sleep (of_int (randint 60 300 7))]"
  by (simp add: main_S_def world_S_ok_def users_to_contact_def get_processed_users_def abebe_def
      row_get_def truthy_def settings_S_def process_user_def log_and_wait_def result_S_of_def)

text \<open>
  \<open>add_patients_to_channel\<close> also tests \<open>i < len(remaining) - 1\<close>: no sleep follows its
  last item. Where the scripts sleep a random time, it lies between the two bounds.
\<close>

lemma add_patients_no_sleep_after_last_item:
  "main_A settings_A (world_A_of False (Some [almaz]) [] (\<lambda>i. invited None))
   = [Attempt ''+251911223344'', Remote ImportContacts, Remote InviteToChannel,
      Write (result_of p_almaz ''Success'' ''Added''), Remote DeleteContacts]"
  by code_simp

lemma randint_range: "lo \<le> hi \<Longrightarrow> lo \<le> randint lo hi r \<and> randint lo hi r \<le> hi"
proof -
  assume "lo \<le> hi"
  then have "0 < nat (hi - lo + 1)" by simp
  then have "r mod nat (hi - lo + 1) < nat (hi - lo + 1)" by (rule mod_less_divisor)
  then show ?thesis by (simp add: randint_def)
qed

section \<open>Exit codes\<close>





section \<open>Resuming from the result log\<close>

lemma attempts_log_and_pace [simp]: "attempts (log_and_pace cfg n i c p st rs u r) = []"
  by (simp add: log_and_pace_def)

lemma attempts_process_patient:
  "process_patient cfg dry n i c p rm r = (evs, c', k) \<Longrightarrow> attempts evs = []"
  by (auto simp: process_patient_def Let_def
      split: if_splits option.splits sum.splits exc_kind.splits prod.splits)

lemma attempts_loop_A:
  "set (attempts (loop_A cfg dry rm rnd n i c ps)) \<subseteq> phone ` set ps"
proof (induction ps arbitrary: i c)
  case Nil
  then show ?case by simp
next
  case (Cons p ps)
  show ?case
  proof (cases "c \<ge> daily_limit cfg")
    case True
    then show ?thesis by simp
  next
    case False
    obtain evs c' k where pp: "process_patient cfg dry n i c p (rm i) (rnd i) = (evs, c', k)"
      by (cases "process_patient cfg dry n i c p (rm i) (rnd i)") auto
    have a: "attempts evs = []" using pp by (rule attempts_process_patient)
    show ?thesis
    proof (cases k)
      case Next
      then show ?thesis using False pp a Cons.IH [of "Suc i" c'] by auto
    next
      case Stop
      then show ?thesis using False pp a by auto
    qed
  qed
qed

lemma read_patient_rows_phone:
  "read_patient_rows seen rows = Inr ps \<Longrightarrow> p \<in> set ps \<Longrightarrow> phone p \<noteq> []"
  by (induction rows arbitrary: seen ps)
     (auto simp: Let_def make_patient_def split: sum.splits if_splits)

lemma attempts_log_and_wait [simp]: "attempts (log_and_wait cfg c u fn st rs r) = []"
  by (simp add: log_and_wait_def)

lemma attempts_process_user:
  "process_user cfg dry c u fn rm r = (evs, c', k) \<Longrightarrow> attempts evs = []"
  by (auto simp: process_user_def split: if_splits option.splits exc_kind.splits)

lemma attempts_loop_S:
  "set (attempts (loop_S cfg dry rm rnd i c us)) \<subseteq> (\<lambda>u. row_get u ''user_id'' None) ` set us"
proof (induction us arbitrary: i c)
  case Nil
  then show ?case by simp
next
  case (Cons u us)
  show ?case
  proof (cases "c \<ge> daily_limit cfg \<or> row_get u ''first_name'' (Some ''Friend'') = None")
    case True
    then show ?thesis by auto
  next
    case False
    then obtain fn where fn: "row_get u ''first_name'' (Some ''Friend'') = Some fn" by auto
    obtain evs c' k where pp: "process_user cfg dry c u fn (rm i) (rnd i) = (evs, c', k)"
      by (cases "process_user cfg dry c u fn (rm i) (rnd i)") auto
    have a: "attempts evs = []" using pp by (rule attempts_process_user)
    show ?thesis
    proof (cases k)
      case Next
      then show ?thesis using False fn pp a Cons.IH [of "Suc i" c'] by auto
    next
      case Stop
      then show ?thesis using False fn pp a by auto
    qed
  qed
qed

text \<open>
  Claim C2, amended. \<open>add_patients_to_channel\<close> and \<open>safe_dm_invite\<close> never attempt an
  item whose key (phone number, user id) stands in a row of the output file, whatever status
  that row records. \<open>invite_users_to_channel\<close> never reads its output file: its run is the
  same whatever the file holds.
\<close>

theorem resume_skips_logged:
  "set (attempts (main_A cfg w)) \<inter> r_phone ` set (output_file w) = {}
   \<and> set (attempts (main_S cfg' w')) \<inter> s_user_id ` set (output_file_S w') = {}
   \<and> invite_users_to_channel cfg'' (w''\<lparr>output_file_I := log_rows\<rparr>) = invite_users_to_channel cfg'' w''"
proof (intro conjI)
  show "set (attempts (main_A cfg w)) \<inter> r_phone ` set (output_file w) = {}"
  proof (cases "read_patient_csv (csv_file w)")
    case (Inl e)
    then show ?thesis by (simp add: main_A_def)
  next
    case (Inr patients)
    have ne: "\<forall>p \<in> set patients. phone p \<noteq> []"
      using Inr read_patient_rows_phone
      by (auto simp: read_patient_csv_def split: option.splits)
    have "set (attempts (main_A cfg w)) \<subseteq> phone ` set (remaining_A w patients)"
      using Inr attempts_loop_A [of cfg "dry_run_flag w" "answers w" "entropy w" "length (remaining_A w patients)" 0 0 "remaining_A w patients"]
      by (auto simp: main_A_def Let_def)
    moreover have "phone ` set (remaining_A w patients) \<inter> r_phone ` set (output_file w) = {}"
      using ne by (auto simp: remaining_A_def get_processed_phones_def)
    ultimately show ?thesis by blast
  qed
next
  show "set (attempts (main_S cfg' w')) \<inter> s_user_id ` set (output_file_S w') = {}"
  proof (cases "csv_file_S w'")
    case None
    then show ?thesis by (simp add: main_S_def)
  next
    case (Some rows)
    have "set (attempts (main_S cfg' w')) \<subseteq> (\<lambda>u. row_get u ''user_id'' None) ` set (users_to_contact w' rows)"
      using Some attempts_loop_S [of cfg' "dry_run_flag_S w'" "answers_S w'" "entropy_S w'" 0 0 "users_to_contact w' rows"]
      by (auto simp: main_S_def)
    moreover have "(\<lambda>u. row_get u ''user_id'' None) ` set (users_to_contact w' rows) \<inter> s_user_id ` set (output_file_S w') = {}"
      by (auto simp: users_to_contact_def get_processed_users_def)
    ultimately show ?thesis by blast
  qed
next
  show "invite_users_to_channel cfg'' (w''\<lparr>output_file_I := log_rows\<rparr>) = invite_users_to_channel cfg'' w''"
    by (simp add: invite_users_to_channel_def split: sum.splits)
qed


text \<open>
  Claim C2 says that no script attempts an item again whose key is in the log. With the user
  1001 logged by an earlier run, \<open>invite_users_to_channel\<close> attempts the user 1001 again.
\<close>

theorem invite_users_reattempts_logged:
  "map i_user_id (output_file_I (world_I_of (Some [abebe]) [logged_abebe] (\<lambda>i. None))) = [''1001'']
   \<and> attempts (invite_users_to_channel settings_I_default
         (world_I_of (Some [abebe]) [logged_abebe] (\<lambda>i. None))) = [(''1001'', ''abebe'')]"
  by code_simp

theorem resume_skips_logged_witness:
  "map r_phone (output_file (world_A_of False (Some [almaz, dawit]) [logged_almaz] (\<lambda>i. invited None)))
     = [''+251911223344'']
   \<and> attempts (main_A settings_A
         (world_A_of False (Some [almaz, dawit]) [logged_almaz] (\<lambda>i. invited None)))
     = [''+251922334455'']"
  using resume_skips_logged [of settings_A
      "world_A_of False (Some [almaz, dawit]) [logged_almaz] (\<lambda>i. invited None)"]
  by code_simp

section \<open>Formatting a wait and reading it back\<close>

declare str_nat.simps [simp del]

lemma digit_char_digit: "d < 10 \<Longrightarrow> is_digit (digit_char d)"
proof -
  assume "d < 10"
  then have "d \<in> {0, 1, 2, 3, 4, 5, 6, 7, 8, 9}" by auto
  then show ?thesis by (auto simp: digit_char_def is_digit_def)
qed

lemma digit_val_char: "d < 10 \<Longrightarrow> digit_val (digit_char d) = d"
proof -
  assume "d < 10"
  then have "d \<in> {0, 1, 2, 3, 4, 5, 6, 7, 8, 9}" by auto
  then show ?thesis by (auto simp: digit_char_def digit_val_def)
qed

lemma str_nat_digits: "list_all is_digit (str_nat n)"
proof (induction n rule: str_nat.induct)
  case (1 n)
  show ?case
  proof (cases "n < 10")
    case True
    then show ?thesis by (simp add: str_nat.simps [of n] digit_char_digit)
  next
    case False
    then show ?thesis using 1 by (simp add: str_nat.simps [of n] digit_char_digit)
  qed
qed

lemma str_nat_nonempty: "str_nat n \<noteq> []"
  by (simp add: str_nat.simps [of n])

lemma str_nat_value: "foldl (\<lambda>a c. 10 * a + digit_val c) 0 (str_nat n) = n"
proof (induction n rule: str_nat.induct)
  case (1 n)
  show ?case
  proof (cases "n < 10")
    case True
    then show ?thesis by (simp add: str_nat.simps [of n] digit_val_char)
  next
    case False
    then show ?thesis using 1 by (simp add: str_nat.simps [of n] digit_val_char)
  qed
qed

lemma digits_no_double_underscore: "list_all is_digit s \<Longrightarrow> no_double_underscore s"
  by (induction s rule: no_double_underscore.induct) (auto simp: is_digit_def)

lemma nat_literal_str_nat: "nat_literal (str_nat n) = Some n"
proof -
  have d: "list_all is_digit (str_nat n)" by (rule str_nat_digits)
  have ne: "str_nat n \<noteq> []" by (rule str_nat_nonempty)
  have h: "is_digit (hd (str_nat n))" using d ne by (cases "str_nat n") auto
  have l: "is_digit (last (str_nat n))" using d ne last_in_set by (auto simp: list_all_iff)
  have f: "filter is_digit (str_nat n) = str_nat n" using d by (simp add: list_all_iff)
  have a: "list_all (\<lambda>c. is_digit c \<or> c = CHR ''_'') (str_nat n)"
    using d by (simp add: list_all_iff)
  show ?thesis
    by (simp add: nat_literal_def ne h l f a digits_no_double_underscore [OF d] str_nat_value)
qed

lemma strip_ends: "s \<noteq> [] \<Longrightarrow> \<not> py_isspace (hd s) \<Longrightarrow> \<not> py_isspace (last s) \<Longrightarrow> strip s = s"
proof -
  assume ne: "s \<noteq> []" and h: "\<not> py_isspace (hd s)" and l: "\<not> py_isspace (last s)"
  have a: "dropWhile py_isspace s = s" using ne h by (cases s) auto
  have r: "rev s = last s # rev (butlast s)" using ne by (induction s rule: rev_induct) auto
  have "dropWhile py_isspace (last s # rev (butlast s)) = last s # rev (butlast s)"
    using l by simp
  then have b: "dropWhile py_isspace (rev s) = rev s" by (simp only: r [symmetric])
  show ?thesis by (simp add: strip_def a b)
qed

lemma int_space_is_space: "int_isspace c \<Longrightarrow> py_isspace c"
  by (auto simp: int_isspace_def py_isspace_def Let_def)

lemma int_strip_ends:
  "s \<noteq> [] \<Longrightarrow> \<not> int_isspace (hd s) \<Longrightarrow> \<not> int_isspace (last s) \<Longrightarrow> int_strip s = s"
proof -
  assume ne: "s \<noteq> []" and h: "\<not> int_isspace (hd s)" and l: "\<not> int_isspace (last s)"
  have a: "dropWhile int_isspace s = s" using ne h by (cases s) auto
  have r: "rev s = last s # rev (butlast s)" using ne by (induction s rule: rev_induct) auto
  have "dropWhile int_isspace (last s # rev (butlast s)) = last s # rev (butlast s)"
    using l by simp
  then have b: "dropWhile int_isspace (rev s) = rev s" by (simp only: r [symmetric])
  show ?thesis by (simp add: int_strip_def a b)
qed

lemma minus_not_space: "\<not> int_isspace CHR ''-''"
  by (simp add: int_isspace_def)

lemma digit_not_int_space: "is_digit c \<Longrightarrow> \<not> int_isspace c"
  using digit_not_space int_space_is_space by blast

lemma py_int_str_int: "py_int (str_int w) = Some w"
proof (cases "w < 0")
  case True
  let ?d = "str_nat (nat (- w))"
  have d: "list_all is_digit ?d" by (rule str_nat_digits)
  have ne: "?d \<noteq> []" by (rule str_nat_nonempty)
  have "is_digit (last ?d)" using d ne last_in_set by (auto simp: list_all_iff)
  then have "\<not> int_isspace (last (CHR ''-'' # ?d))" using ne by (simp add: digit_not_int_space)
  then have "int_strip (CHR ''-'' # ?d) = CHR ''-'' # ?d"
    by (intro int_strip_ends) (simp_all add: minus_not_space)
  then show ?thesis using True by (simp add: py_int_def str_int_def nat_literal_str_nat)
next
  case False
  let ?d = "str_nat (nat w)"
  have d: "list_all is_digit ?d" by (rule str_nat_digits)
  have ne: "?d \<noteq> []" by (rule str_nat_nonempty)
  obtain c cs where cs: "?d = c # cs" using ne by (cases ?d) auto
  then have dc: "is_digit c" using d by simp
  have "is_digit (last ?d)" using d ne last_in_set by (auto simp: list_all_iff)
  then have "int_strip ?d = ?d"
    using ne dc cs by (intro int_strip_ends) (simp_all add: digit_not_int_space)
  then have s: "int_strip (c # cs) = c # cs" using cs by simp
  have "c \<noteq> CHR ''-''" "c \<noteq> CHR ''+''" using dc by (auto simp: is_digit_def)
  moreover have "nat_literal (c # cs) = Some (nat w)" using nat_literal_str_nat [of "nat w"] cs by simp
  ultimately show ?thesis using False s by (simp add: py_int_def str_int_def cs)
qed

lemma split_on_no_sep: "c \<notin> set s \<Longrightarrow> split_on c s = [s]"
  by (induction s) auto

lemma split_on_append: "c \<notin> set a \<Longrightarrow> split_on c (a @ c # b) = a # split_on c b"
  by (induction a) auto

lemma str_int_chars: "x \<in> set (str_int w) \<Longrightarrow> is_digit x \<or> x = CHR ''-''"
  using str_nat_digits by (auto simp: str_int_def list_all_iff split: if_splits)

lemma str_int_last: "str_int w \<noteq> [] \<and> is_digit (last (str_int w))"
proof -
  have "\<And>n. str_nat n \<noteq> [] \<and> is_digit (last (str_nat n))"
    using str_nat_digits str_nat_nonempty last_in_set by (auto simp: list_all_iff)
  then show ?thesis by (simp add: str_int_def)
qed

lemma wait_seconds_of_flood: "wait_seconds_of (''FloodWait_'' @ str_int w @ ''s'') = Inr w"
proof -
  have us: "CHR ''_'' \<notin> set (str_int w @ ''s'')"
    using str_int_chars [of "CHR ''_''" w] by (auto simp: is_digit_def)
  have "split_on CHR ''_'' (''FloodWait'' @ CHR ''_'' # (str_int w @ ''s'')) = ''FloodWait'' # split_on CHR ''_'' (str_int w @ ''s'')"
    by (rule split_on_append) simp
  then have sp: "split_on CHR ''_'' (''FloodWait_'' @ str_int w @ ''s'') = [''FloodWait'', str_int w @ ''s'']"
    using split_on_no_sep [OF us] by simp
  have "last (str_int w) \<noteq> CHR ''s''" using str_int_last [of w] by (auto simp: is_digit_def)
  then have "dropWhile (\<lambda>x. x = CHR ''s'') (rev (str_int w)) = rev (str_int w)"
    using str_int_last [of w] by (cases "rev (str_int w)") (auto simp: last_rev [symmetric] hd_rev)
  then have rs: "rstrip_char CHR ''s'' (str_int w @ ''s'') = str_int w"
    by (simp add: rstrip_char_def)
  show ?thesis by (simp add: wait_seconds_of_def sp rs py_int_str_int del: append.simps)
qed

section \<open>Where a run stands when it takes up an item\<close>

lemma loop_A_reach:
  "j < length (attempts (loop_A cfg dry rm rnd n i c ps)) \<Longrightarrow>
   \<exists>pre c'. loop_A cfg dry rm rnd n i c ps = pre @ loop_A cfg dry rm rnd n (i + j) c' (drop j ps)
      \<and> attempts pre = take j (map phone ps) \<and> c' < daily_limit cfg \<and> j < length ps"
proof (induction ps arbitrary: i c j)
  case Nil
  then show ?case by simp
next
  case (Cons p ps)
  have lim: "c < daily_limit cfg" using Cons.prems by (cases "c < daily_limit cfg") auto
  show ?case
  proof (cases j)
    case 0
    then show ?thesis using lim by (intro exI [of _ "[]"] exI [of _ c]) simp
  next
    case (Suc j')
    obtain evs c' k where pp: "process_patient cfg dry n i c p (rm i) (rnd i) = (evs, c', k)"
      by (cases "process_patient cfg dry n i c p (rm i) (rnd i)") auto
    have a: "attempts evs = []" using pp by (rule attempts_process_patient)
    have k: "k = Next" using Cons.prems Suc lim pp a by (cases k) auto
    let ?rest = "loop_A cfg dry rm rnd n (Suc i) c' ps"
    have t: "loop_A cfg dry rm rnd n i c (p # ps) = Attempt (phone p) # evs @ ?rest"
      using lim pp k by simp
    then have "j' < length (attempts ?rest)" using Cons.prems Suc a by simp
    from Cons.IH [OF this] obtain pre c'' where
      r: "?rest = pre @ loop_A cfg dry rm rnd n (Suc i + j') c'' (drop j' ps)"
      and ap: "attempts pre = take j' (map phone ps)"
      and c'': "c'' < daily_limit cfg" and j': "j' < length ps"
      by blast
    have "loop_A cfg dry rm rnd n i c (p # ps)
          = (Attempt (phone p) # evs @ pre) @ loop_A cfg dry rm rnd n (i + j) c'' (drop j (p # ps))"
      using t r Suc by simp
    moreover have "attempts (Attempt (phone p) # evs @ pre) = take j (map phone (p # ps))"
      using a ap Suc by simp
    ultimately show ?thesis using c'' j' Suc by (intro exI conjI) auto
  qed
qed

lemma loop_A_peer_flood:
  "c < daily_limit cfg \<Longrightarrow> raised_to_runner (rm i) PeerFloodError \<Longrightarrow>
   loop_A cfg False rm rnd n i c (p # ps) =
     [Attempt (phone p), Remote ImportContacts, Remote InviteToChannel,
      Write (result_of p ''Failed'' ''PeerFlood'')]"
  by (auto simp: raised_to_runner_def process_patient_def invite_step_def)

lemma loop_A_flood_wait_long:
  "c < daily_limit cfg \<Longrightarrow> raised_to_runner (rm i) (FloodWaitError w) \<Longrightarrow> w > 600 \<Longrightarrow>
   loop_A cfg False rm rnd n i c (p # ps) =
     [Attempt (phone p), Remote ImportContacts, Remote InviteToChannel,
      Write (result_of p ''Failed'' (''FloodWait_'' @ str_int w @ ''s''))]"
  by (auto simp: raised_to_runner_def process_patient_def invite_step_def)

lemma loop_A_flood_wait_short:
  "c < daily_limit cfg \<Longrightarrow> raised_to_runner (rm i) (FloodWaitError w) \<Longrightarrow> w \<le> 600 \<Longrightarrow>
   loop_A cfg False rm rnd n i c (p # ps) =
     [Attempt (phone p), Remote ImportContacts, Remote InviteToChannel, Sleep (of_int w)]
     @ loop_A cfg False rm rnd n (Suc i) c ps"
  by (auto simp: raised_to_runner_def process_patient_def invite_step_def)


lemma loop_S_reach:
  "j < length (attempts (loop_S cfg dry rm rnd i c us)) \<Longrightarrow>
   \<exists>pre c' fn. loop_S cfg dry rm rnd i c us = pre @ loop_S cfg dry rm rnd (i + j) c' (drop j us)
      \<and> attempts pre = take j (map (\<lambda>u. row_get u ''user_id'' None) us)
      \<and> c' < daily_limit cfg \<and> j < length us
      \<and> row_get (us ! j) ''first_name'' (Some ''Friend'') = Some fn"
proof (induction us arbitrary: i c j)
  case Nil
  then show ?case by simp
next
  case (Cons u us)
  have lim: "c < daily_limit cfg" using Cons.prems by (cases "c < daily_limit cfg") auto
  obtain fn where fn: "row_get u ''first_name'' (Some ''Friend'') = Some fn"
    using Cons.prems lim by (cases "row_get u ''first_name'' (Some ''Friend'')") auto
  show ?case
  proof (cases j)
    case 0
    then show ?thesis using lim fn by (intro exI [of _ "[]"] exI [of _ c] exI [of _ fn]) simp
  next
    case (Suc j')
    obtain evs c' k where pp: "process_user cfg dry c u fn (rm i) (rnd i) = (evs, c', k)"
      by (cases "process_user cfg dry c u fn (rm i) (rnd i)") auto
    have a: "attempts evs = []" using pp by (rule attempts_process_user)
    have k: "k = Next" using Cons.prems Suc lim fn pp a by (cases k) auto
    let ?rest = "loop_S cfg dry rm rnd (Suc i) c' us"
    have t: "loop_S cfg dry rm rnd i c (u # us) = Attempt (row_get u ''user_id'' None) # evs @ ?rest"
      using lim fn pp k by simp
    then have "j' < length (attempts ?rest)" using Cons.prems Suc a by simp
    from Cons.IH [OF this] obtain pre c'' fn' where
      r: "?rest = pre @ loop_S cfg dry rm rnd (Suc i + j') c'' (drop j' us)"
      and ap: "attempts pre = take j' (map (\<lambda>u. row_get u ''user_id'' None) us)"
      and c'': "c'' < daily_limit cfg" and j': "j' < length us"
      and fn': "row_get (us ! j') ''first_name'' (Some ''Friend'') = Some fn'"
      by blast
    have "loop_S cfg dry rm rnd i c (u # us)
          = (Attempt (row_get u ''user_id'' None) # evs @ pre)
            @ loop_S cfg dry rm rnd (i + j) c'' (drop j (u # us))"
      using t r Suc by simp
    moreover have "attempts (Attempt (row_get u ''user_id'' None) # evs @ pre)
          = take j (map (\<lambda>u. row_get u ''user_id'' None) (u # us))"
      using a ap Suc by simp
    ultimately show ?thesis using c'' j' fn' Suc by (intro exI conjI) auto
  qed
qed

lemma loop_S_peer_flood:
  "c < daily_limit cfg \<Longrightarrow> row_get u ''first_name'' (Some ''Friend'') = Some fn \<Longrightarrow>
   send_raises (rm i) PeerFloodError \<Longrightarrow>
   loop_S cfg False rm rnd i c (u # us) =
     [Attempt (row_get u ''user_id'' None), Remote SendMessage,
      Write (result_S_of u fn ''Failed'' ''PeerFlood'')]"
  by (auto simp: send_raises_def process_user_def)

lemma loop_S_flood_wait:
  "c < daily_limit cfg \<Longrightarrow> row_get u ''first_name'' (Some ''Friend'') = Some fn \<Longrightarrow>
   send_raises (rm i) (FloodWaitError w) \<Longrightarrow>
   loop_S cfg False rm rnd i c (u # us) = [Attempt (row_get u ''user_id'' None), Remote SendMessage]"
  by (auto simp: send_raises_def process_user_def)

lemma process_user_I_row: "\<exists>evs row. process_user_I rm u = (evs, Inr row) \<and> attempts evs = []"
  by (auto simp: process_user_I_def add_user_to_channel_def wait_seconds_of_flood [simplified]
      startswith_def split: option.splits exc_kind.splits)

lemma process_user_I_peer_flood:
  "invite_raises rm PeerFloodError \<Longrightarrow>
   process_user_I rm u = ([Remote InviteToChannel], Inr (result_I_of u ''Failed'' ''PeerFlood''))"
  by (auto simp: invite_raises_def process_user_I_def add_user_to_channel_def startswith_def)

lemma process_user_I_flood_wait:
  "invite_raises rm (FloodWaitError w) \<Longrightarrow>
   process_user_I rm u =
     ([Remote InviteToChannel, Sleep (of_int w)],
      Inr (result_I_of u ''Failed'' (''FloodWait_'' @ str_int w @ ''s'')))"
  by (auto simp: invite_raises_def process_user_I_def add_user_to_channel_def startswith_def
      wait_seconds_of_flood [simplified])

lemma process_batch_rows:
  "\<exists>evs. process_batch rm i us = (evs, Inr (rows_from rm i us))
     \<and> attempts evs = map (\<lambda>u. (user_id u, username u)) us \<and> writes evs = []"
proof (induction us arbitrary: i)
  case Nil
  then show ?case by simp
next
  case (Cons u us)
  obtain evs row where pu: "process_user_I (rm i) u = (evs, Inr row)" and a: "attempts evs = []"
    using process_user_I_row by blast
  have w: "writes evs = []"
    using pu by (auto simp: process_user_I_def split: if_splits prod.splits sum.splits)
  obtain evs' where pb: "process_batch rm (Suc i) us = (evs', Inr (rows_from rm (Suc i) us))"
    and a': "attempts evs' = map (\<lambda>u. (user_id u, username u)) us" and w': "writes evs' = []"
    using Cons.IH by blast
  show ?case using pu a w pb a' w' by simp
qed


lemma rows_from_append:
  "rows_from rm i (a @ b) = rows_from rm i a @ rows_from rm (i + length a) b"
  by (induction a arbitrary: i) auto

lemma length_rows_from: "length (rows_from rm i us) = length us"
proof (induction us arbitrary: i)
  case Nil
  then show ?case by simp
next
  case (Cons u us)
  obtain evs row where "process_user_I (rm i) u = (evs, Inr row)"
    using process_user_I_row by blast
  then show ?case using Cons.IH by simp
qed

lemma rows_from_nth:
  "k < length us \<Longrightarrow> process_user_I (rm (i + k)) (us ! k) = (evs, Inr row) \<Longrightarrow>
   rows_from rm i us ! k = row"
proof (induction us arbitrary: i k)
  case Nil
  then show ?case by simp
next
  case (Cons u us)
  obtain evs0 row0 where p0: "process_user_I (rm i) u = (evs0, Inr row0)"
    using process_user_I_row by blast
  show ?case
  proof (cases k)
    case 0
    then show ?thesis using Cons.prems p0 by simp
  next
    case (Suc k')
    then have "rows_from rm (Suc i) us ! k' = row"
      using Cons.prems by (intro Cons.IH) simp_all
    then show ?thesis using Suc p0 by simp
  qed
qed


lemma batch_loop_all:
  "0 < bs \<Longrightarrow>
   attempts (batch_loop bs d rm i users) = map (\<lambda>u. (user_id u, username u)) users
   \<and> writes (batch_loop bs d rm i users) = rows_from rm i users"
proof (induction bs d rm i users rule: batch_loop.induct)
  case (1 bs d rm i users)
  show ?case
  proof (cases "users = []")
    case True
    then show ?thesis by (simp add: batch_loop.simps)
  next
    case False
    obtain evs where pb: "process_batch rm i (take bs users) = (evs, Inr (rows_from rm i (take bs users)))"
      and a: "attempts evs = map (\<lambda>u. (user_id u, username u)) (take bs users)"
      and w: "writes evs = []"
      using process_batch_rows by blast
    have ne: "\<not> (bs = 0 \<or> users = [])" using False "1.prems" by simp
    have IH: "attempts (batch_loop bs d rm (i + bs) (drop bs users))
                = map (\<lambda>u. (user_id u, username u)) (drop bs users)
              \<and> writes (batch_loop bs d rm (i + bs) (drop bs users))
                = rows_from rm (i + bs) (drop bs users)"
      using "1.IH" [OF ne pb [symmetric] refl] "1.prems" by simp
    have wm: "\<And>rs. writes (map Write rs :: event_I list) = rs"
    proof -
      fix rs :: "result_I list"
      show "writes (map Write rs :: event_I list) = rs" by (induction rs) auto
    qed
    have am: "\<And>rs. attempts (map Write rs :: event_I list) = []"
    proof -
      fix rs :: "result_I list"
      show "attempts (map Write rs :: event_I list) = []" by (induction rs) auto
    qed
    have t: "batch_loop bs d rm i users =
               evs @ map Write (rows_from rm i (take bs users))
                 @ (if bs < length users then [Sleep (of_int d)] else [])
                 @ batch_loop bs d rm (i + bs) (drop bs users)"
      using ne pb by (subst batch_loop.simps) simp
    have att: "attempts (batch_loop bs d rm i users) = map (\<lambda>u. (user_id u, username u)) users"
    proof -
      have "attempts (batch_loop bs d rm i users)
            = map (\<lambda>u. (user_id u, username u)) (take bs users)
              @ map (\<lambda>u. (user_id u, username u)) (drop bs users)"
        using t a am IH by simp
      then show ?thesis by (simp add: map_append [symmetric] del: map_append)
    qed
    have wr: "writes (batch_loop bs d rm i users) = rows_from rm i users"
    proof (cases "bs < length users")
      case True
      have "rows_from rm i users = rows_from rm i (take bs users @ drop bs users)" by simp
      also have "\<dots> = rows_from rm i (take bs users) @ rows_from rm (i + bs) (drop bs users)"
        using True by (simp only: rows_from_append) simp
      finally show ?thesis using t w wm IH True by simp
    next
      case nl: False
      then have "drop bs users = []" "take bs users = users" by simp_all
      then show ?thesis using t w wm IH nl by simp
    qed
    show ?thesis using att wr by simp
  qed
qed

section \<open>The hard throttle signal\<close>

text \<open>
  Claim C4 says that a run stops at the item on which \<open>PeerFloodError\<close> is raised.
  \<open>invite_users_to_channel\<close> turns the exception into the reason \<open>PeerFlood\<close> and goes on:
  with \<open>PeerFloodError\<close> raised for the first of two users, the second user is invited and
  recorded.
\<close>

theorem invite_users_goes_on_after_peer_flood:
  "map (\<lambda>r. (i_user_id r, i_status r, i_reason r))
     (writes (invite_users_to_channel settings_I_default
        (world_I_of (Some [abebe, sara]) [] (first_raises peer_flood))))
   = [(''1001'', ''Failed'', ''PeerFlood''), (''1002'', ''Success'', ''Success'')]"
  by code_simp

text \<open>
  In \<open>add_patients_to_channel\<close> only the invitation that follows \<open>UserNotParticipantError\<close>
  lets \<open>PeerFloodError\<close> reach the handler that stops the run. Raised by the invitation that
  is tried after any other failure of the participant check, it is recorded with its message
  as the reason and the loop goes on.
\<close>

lemma peer_flood_swallowed:
  "c < daily_limit cfg \<Longrightarrow> user_found (rm i) \<Longrightarrow> participant (rm i) = Some pe \<Longrightarrow>
   kind pe \<noteq> UserNotParticipantError \<Longrightarrow> invite (rm i) = Some e \<Longrightarrow> kind e = PeerFloodError \<Longrightarrow>
   loop_A cfg False rm rnd n i c (p # ps) =
     [Attempt (phone p), Remote ImportContacts, Remote InviteToChannel]
     @ log_and_pace cfg n i c p ''Failed'' (take 50 (message e)) True (rnd i)
     @ loop_A cfg False rm rnd n (Suc i) c ps"
  by (simp add: process_patient_def invite_anyway_def)

text \<open>
  Claim C4, amended. When the run takes up item \<open>k\<close> and the action raises
  \<open>PeerFloodError\<close> on it, then: in \<open>add_patients_to_channel\<close> (the invitation after
  \<open>UserNotParticipantError\<close>) and in \<open>safe_dm_invite\<close> (\<open>send_message\<close>) the run ends with
  the attempt of item \<open>k\<close>, its requests and the one record \<open>Failed\<close>/\<open>PeerFlood\<close>, nothing
  after it; in \<open>invite_users_to_channel\<close> item \<open>k\<close> gets the record
  \<open>Failed\<close>/\<open>PeerFlood\<close> and every user is attempted and recorded all the same.
\<close>

theorem peer_flood_stops:
  "(k < length (attempts (loop_A cfg False rm rnd n 0 0 ps)) \<and> raised_to_runner (rm k) PeerFloodError
      \<longrightarrow> (\<exists>pre. loop_A cfg False rm rnd n 0 0 ps =
                   pre @ [Attempt (phone (ps ! k)), Remote ImportContacts, Remote InviteToChannel,
                          Write (result_of (ps ! k) ''Failed'' ''PeerFlood'')]
                 \<and> attempts pre = take k (map phone ps)))
   \<and> (k < length (attempts (loop_S cfg False rm' rnd 0 0 us)) \<and> send_raises (rm' k) PeerFloodError
      \<longrightarrow> (\<exists>pre fn. loop_S cfg False rm' rnd 0 0 us =
                   pre @ [Attempt (row_get (us ! k) ''user_id'' None), Remote SendMessage,
                          Write (result_S_of (us ! k) fn ''Failed'' ''PeerFlood'')]
                 \<and> attempts pre = take k (map (\<lambda>u. row_get u ''user_id'' None) us)))
   \<and> (0 < bs \<and> k < length users \<and> invite_raises (rm'' k) PeerFloodError
      \<longrightarrow> attempts (batch_loop bs d rm'' 0 users) = map (\<lambda>u. (user_id u, username u)) users
          \<and> length (writes (batch_loop bs d rm'' 0 users)) = length users
          \<and> writes (batch_loop bs d rm'' 0 users) ! k = result_I_of (users ! k) ''Failed'' ''PeerFlood'')"
proof (intro conjI impI)
  assume "k < length (attempts (loop_A cfg False rm rnd n 0 0 ps)) \<and> raised_to_runner (rm k) PeerFloodError"
  then have k: "k < length (attempts (loop_A cfg False rm rnd n 0 0 ps))"
    and pf: "raised_to_runner (rm k) PeerFloodError" by simp_all
  from loop_A_reach [OF k] obtain pre c where
    t: "loop_A cfg False rm rnd n 0 0 ps = pre @ loop_A cfg False rm rnd n k c (drop k ps)"
    and a: "attempts pre = take k (map phone ps)" and c: "c < daily_limit cfg" and kl: "k < length ps"
    by auto
  have d: "drop k ps = ps ! k # drop (Suc k) ps" using kl by (simp add: Cons_nth_drop_Suc)
  show "\<exists>pre. loop_A cfg False rm rnd n 0 0 ps =
                   pre @ [Attempt (phone (ps ! k)), Remote ImportContacts, Remote InviteToChannel,
                          Write (result_of (ps ! k) ''Failed'' ''PeerFlood'')]
                 \<and> attempts pre = take k (map phone ps)"
    using t a loop_A_peer_flood [where rm = rm and i = k and rnd = rnd and n = n and p = "ps ! k"
        and ps = "drop (Suc k) ps", OF c pf] d by auto
next
  assume "k < length (attempts (loop_S cfg False rm' rnd 0 0 us)) \<and> send_raises (rm' k) PeerFloodError"
  then have k: "k < length (attempts (loop_S cfg False rm' rnd 0 0 us))"
    and pf: "send_raises (rm' k) PeerFloodError" by simp_all
  from loop_S_reach [OF k] obtain pre c fn where
    t: "loop_S cfg False rm' rnd 0 0 us = pre @ loop_S cfg False rm' rnd k c (drop k us)"
    and a: "attempts pre = take k (map (\<lambda>u. row_get u ''user_id'' None) us)"
    and c: "c < daily_limit cfg" and kl: "k < length us"
    and fn: "row_get (us ! k) ''first_name'' (Some ''Friend'') = Some fn"
    by auto
  have d: "drop k us = us ! k # drop (Suc k) us" using kl by (simp add: Cons_nth_drop_Suc)
  show "\<exists>pre fn. loop_S cfg False rm' rnd 0 0 us =
                   pre @ [Attempt (row_get (us ! k) ''user_id'' None), Remote SendMessage,
                          Write (result_S_of (us ! k) fn ''Failed'' ''PeerFlood'')]
                 \<and> attempts pre = take k (map (\<lambda>u. row_get u ''user_id'' None) us)"
    using t a loop_S_peer_flood [where rm = rm' and i = k and rnd = rnd and us = "drop (Suc k) us",
        OF c fn pf] d by auto
next
  assume h: "0 < bs \<and> k < length users \<and> invite_raises (rm'' k) PeerFloodError"
  then show "attempts (batch_loop bs d rm'' 0 users) = map (\<lambda>u. (user_id u, username u)) users"
    using batch_loop_all by blast
  from h show "length (writes (batch_loop bs d rm'' 0 users)) = length users"
    using batch_loop_all [of bs d rm'' 0 users] by (simp add: length_rows_from)
  from h have "rows_from rm'' 0 users ! k = result_I_of (users ! k) ''Failed'' ''PeerFlood''"
    by (intro rows_from_nth [where evs = "[Remote InviteToChannel]"])
       (simp_all add: process_user_I_peer_flood)
  with h show "writes (batch_loop bs d rm'' 0 users) ! k = result_I_of (users ! k) ''Failed'' ''PeerFlood''"
    using batch_loop_all [of bs d rm'' 0 users] by simp
qed

theorem peer_flood_stops_witness:
  "raised_to_runner (invited (Some peer_flood)) PeerFloodError
   \<and> loop_A settings_A False (\<lambda>i. invited (first_raises peer_flood i)) (\<lambda>i. 7) 2 0 0 [p_almaz, p_dawit]
     = [Attempt ''+251911223344'', Remote ImportContacts, Remote InviteToChannel,
        Write (result_of p_almaz ''Failed'' ''PeerFlood'')]"
proof -
  have r: "raised_to_runner (invited (Some peer_flood)) PeerFloodError"
    by (simp add: raised_to_runner_def invited_def peer_flood_def)
  have e: "loop_A settings_A False (\<lambda>i. invited (first_raises peer_flood i)) (\<lambda>i. 7) 2 0 0 [p_almaz, p_dawit]
     = [Attempt ''+251911223344'', Remote ImportContacts, Remote InviteToChannel,
        Write (result_of p_almaz ''Failed'' ''PeerFlood'')]"
    by (simp add: invited_def first_raises_def peer_flood_def settings_A_def
      process_patient_def invite_step_def p_almaz_def make_patient_def Let_def)
  from r e peer_flood_stops [of 0 settings_A "\<lambda>i. invited (first_raises peer_flood i)" "\<lambda>i. 7" 2
      "[p_almaz, p_dawit]"]
  show ?thesis by blast
qed

section \<open>The timed backoff signal\<close>

lemma loop_A_takes_up:
  "c < daily_limit cfg \<Longrightarrow> \<exists>t. loop_A cfg dry rm rnd n i c (p # ps) = Attempt (phone p) # t"
proof -
  assume c: "c < daily_limit cfg"
  obtain evs c' k where pp: "process_patient cfg dry n i c p (rm i) (rnd i) = (evs, c', k)"
    by (cases "process_patient cfg dry n i c p (rm i) (rnd i)") auto
  show ?thesis using c pp by (cases k) auto
qed

text \<open>
  Claim C5 says that after a \<open>FloodWaitError\<close> of at most 600 seconds the run sleeps that
  long and goes on with the next item. \<open>safe_dm_invite\<close> stops on every \<open>FloodWaitError\<close>:
  with a wait of 30 seconds raised for the first of two users there is no sleep, no record, and
  the second user is not attempted.
\<close>

theorem safe_dm_stops_on_short_flood_wait:
  "main_S settings_S (world_S_send [abebe, sara] (first_raises (flood_wait 30)))
   = [Attempt (Some ''1001''), Remote SendMessage]"
  by code_simp

text \<open>
  Claim C5, amended. When the run takes up item \<open>k\<close> and the action raises
  \<open>FloodWaitError\<close> with a wait of \<open>w\<close> seconds on it, then: \<open>add_patients_to_channel\<close> (the
  invitation after \<open>UserNotParticipantError\<close>) records \<open>Failed\<close>/\<open>FloodWait_<w>s\<close> and ends
  there when \<open>w > 600\<close>, and otherwise sleeps exactly \<open>w\<close> seconds, writes no record for item
  \<open>k\<close> and goes on with a count below the limit, hence with the attempt of item
  \<open>k + 1\<close> if there is one; \<open>safe_dm_invite\<close> ends there whatever \<open>w\<close> is,
  without a record and without a sleep; \<open>invite_users_to_channel\<close> sleeps \<open>w\<close> seconds
  whatever \<open>w\<close> is, records \<open>Failed\<close>/\<open>FloodWait_<w>s\<close> and attempts every user.
\<close>

theorem flood_wait_handling:
  "(k < length (attempts (loop_A cfg False rm rnd n 0 0 ps)) \<and> raised_to_runner (rm k) (FloodWaitError w)
      \<longrightarrow> (\<exists>pre. attempts pre = take k (map phone ps) \<and>
            (if w > 600
             then loop_A cfg False rm rnd n 0 0 ps =
                    pre @ [Attempt (phone (ps ! k)), Remote ImportContacts, Remote InviteToChannel,
                           Write (result_of (ps ! k) ''Failed'' (''FloodWait_'' @ str_int w @ ''s''))]
             else (\<exists>c. c < daily_limit cfg
                    \<and> loop_A cfg False rm rnd n 0 0 ps =
                        pre @ [Attempt (phone (ps ! k)), Remote ImportContacts, Remote InviteToChannel,
                               Sleep (of_int w)]
                            @ loop_A cfg False rm rnd n (Suc k) c (drop (Suc k) ps)
                    \<and> (Suc k < length ps \<longrightarrow>
                         (\<exists>t. loop_A cfg False rm rnd n (Suc k) c (drop (Suc k) ps)
                               = Attempt (phone (ps ! Suc k)) # t))))))
   \<and> (k < length (attempts (loop_S cfg False rm' rnd 0 0 us)) \<and> send_raises (rm' k) (FloodWaitError w)
      \<longrightarrow> (\<exists>pre. loop_S cfg False rm' rnd 0 0 us =
                   pre @ [Attempt (row_get (us ! k) ''user_id'' None), Remote SendMessage]
                 \<and> attempts pre = take k (map (\<lambda>u. row_get u ''user_id'' None) us)))
   \<and> (0 < bs \<and> k < length users \<and> invite_raises (rm'' k) (FloodWaitError w)
      \<longrightarrow> process_user_I (rm'' k) (users ! k) =
            ([Remote InviteToChannel, Sleep (of_int w)],
             Inr (result_I_of (users ! k) ''Failed'' (''FloodWait_'' @ str_int w @ ''s'')))
          \<and> attempts (batch_loop bs d rm'' 0 users) = map (\<lambda>u. (user_id u, username u)) users
          \<and> writes (batch_loop bs d rm'' 0 users) ! k
              = result_I_of (users ! k) ''Failed'' (''FloodWait_'' @ str_int w @ ''s''))"
proof (intro conjI impI)
  assume "k < length (attempts (loop_A cfg False rm rnd n 0 0 ps)) \<and> raised_to_runner (rm k) (FloodWaitError w)"
  then have k: "k < length (attempts (loop_A cfg False rm rnd n 0 0 ps))"
    and fw: "raised_to_runner (rm k) (FloodWaitError w)" by simp_all
  from loop_A_reach [OF k] obtain pre c where
    t: "loop_A cfg False rm rnd n 0 0 ps = pre @ loop_A cfg False rm rnd n k c (drop k ps)"
    and a: "attempts pre = take k (map phone ps)" and c: "c < daily_limit cfg" and kl: "k < length ps"
    by auto
  have d: "drop k ps = ps ! k # drop (Suc k) ps" using kl by (simp add: Cons_nth_drop_Suc)
  show "\<exists>pre. attempts pre = take k (map phone ps) \<and>
            (if w > 600
             then loop_A cfg False rm rnd n 0 0 ps =
                    pre @ [Attempt (phone (ps ! k)), Remote ImportContacts, Remote InviteToChannel,
                           Write (result_of (ps ! k) ''Failed'' (''FloodWait_'' @ str_int w @ ''s''))]
             else (\<exists>c. c < daily_limit cfg
                    \<and> loop_A cfg False rm rnd n 0 0 ps =
                        pre @ [Attempt (phone (ps ! k)), Remote ImportContacts, Remote InviteToChannel,
                               Sleep (of_int w)]
                            @ loop_A cfg False rm rnd n (Suc k) c (drop (Suc k) ps)
                    \<and> (Suc k < length ps \<longrightarrow>
                         (\<exists>t. loop_A cfg False rm rnd n (Suc k) c (drop (Suc k) ps)
                               = Attempt (phone (ps ! Suc k)) # t))))"
  proof (cases "w > 600")
    case True
    have "loop_A cfg False rm rnd n k c (ps ! k # drop (Suc k) ps) =
            [Attempt (phone (ps ! k)), Remote ImportContacts, Remote InviteToChannel,
             Write (result_of (ps ! k) ''Failed'' (''FloodWait_'' @ str_int w @ ''s''))]"
      using c fw True by (rule loop_A_flood_wait_long)
    then show ?thesis using t a d True by (intro exI [of _ pre]) simp
  next
    case False
    have "loop_A cfg False rm rnd n k c (ps ! k # drop (Suc k) ps) =
            [Attempt (phone (ps ! k)), Remote ImportContacts, Remote InviteToChannel, Sleep (of_int w)]
            @ loop_A cfg False rm rnd n (Suc k) c (drop (Suc k) ps)"
      using c fw False by (intro loop_A_flood_wait_short) simp_all
    then have l: "loop_A cfg False rm rnd n 0 0 ps =
                 pre @ [Attempt (phone (ps ! k)), Remote ImportContacts, Remote InviteToChannel,
                        Sleep (of_int w)]
                     @ loop_A cfg False rm rnd n (Suc k) c (drop (Suc k) ps)"
      using t d by simp
    have nx: "Suc k < length ps \<longrightarrow>
                (\<exists>t. loop_A cfg False rm rnd n (Suc k) c (drop (Suc k) ps)
                      = Attempt (phone (ps ! Suc k)) # t)"
    proof
      assume "Suc k < length ps"
      then have "drop (Suc k) ps = ps ! Suc k # drop (Suc (Suc k)) ps"
        by (simp add: Cons_nth_drop_Suc)
      then show "\<exists>t. loop_A cfg False rm rnd n (Suc k) c (drop (Suc k) ps)
                      = Attempt (phone (ps ! Suc k)) # t"
        using loop_A_takes_up [OF c, of False rm rnd n "Suc k" "ps ! Suc k" "drop (Suc (Suc k)) ps"]
        by simp
    qed
    show ?thesis
    proof (intro exI [of _ pre] conjI)
      show "attempts pre = take k (map phone ps)" by (rule a)
      show "if w > 600
             then loop_A cfg False rm rnd n 0 0 ps =
                    pre @ [Attempt (phone (ps ! k)), Remote ImportContacts, Remote InviteToChannel,
                           Write (result_of (ps ! k) ''Failed'' (''FloodWait_'' @ str_int w @ ''s''))]
             else (\<exists>c. c < daily_limit cfg
                    \<and> loop_A cfg False rm rnd n 0 0 ps =
                        pre @ [Attempt (phone (ps ! k)), Remote ImportContacts, Remote InviteToChannel,
                               Sleep (of_int w)]
                            @ loop_A cfg False rm rnd n (Suc k) c (drop (Suc k) ps)
                    \<and> (Suc k < length ps \<longrightarrow>
                         (\<exists>t. loop_A cfg False rm rnd n (Suc k) c (drop (Suc k) ps)
                               = Attempt (phone (ps ! Suc k)) # t)))"
        using False c l nx by auto
    qed
  qed
next
  assume "k < length (attempts (loop_S cfg False rm' rnd 0 0 us)) \<and> send_raises (rm' k) (FloodWaitError w)"
  then have k: "k < length (attempts (loop_S cfg False rm' rnd 0 0 us))"
    and fw: "send_raises (rm' k) (FloodWaitError w)" by simp_all
  from loop_S_reach [OF k] obtain pre c fn where
    t: "loop_S cfg False rm' rnd 0 0 us = pre @ loop_S cfg False rm' rnd k c (drop k us)"
    and a: "attempts pre = take k (map (\<lambda>u. row_get u ''user_id'' None) us)"
    and c: "c < daily_limit cfg" and kl: "k < length us"
    and fn: "row_get (us ! k) ''first_name'' (Some ''Friend'') = Some fn"
    by auto
  have d: "drop k us = us ! k # drop (Suc k) us" using kl by (simp add: Cons_nth_drop_Suc)
  have "loop_S cfg False rm' rnd k c (us ! k # drop (Suc k) us)
          = [Attempt (row_get (us ! k) ''user_id'' None), Remote SendMessage]"
    using c fn fw by (rule loop_S_flood_wait)
  then show "\<exists>pre. loop_S cfg False rm' rnd 0 0 us =
                   pre @ [Attempt (row_get (us ! k) ''user_id'' None), Remote SendMessage]
                 \<and> attempts pre = take k (map (\<lambda>u. row_get u ''user_id'' None) us)"
    using t a d by (intro exI [of _ pre]) simp
next
  assume h: "0 < bs \<and> k < length users \<and> invite_raises (rm'' k) (FloodWaitError w)"
  then show pu: "process_user_I (rm'' k) (users ! k) =
            ([Remote InviteToChannel, Sleep (of_int w)],
             Inr (result_I_of (users ! k) ''Failed'' (''FloodWait_'' @ str_int w @ ''s'')))"
    by (intro process_user_I_flood_wait) simp
  from h show "attempts (batch_loop bs d rm'' 0 users) = map (\<lambda>u. (user_id u, username u)) users"
    using batch_loop_all by blast
  from h pu have "rows_from rm'' 0 users ! k
      = result_I_of (users ! k) ''Failed'' (''FloodWait_'' @ str_int w @ ''s'')"
    by (intro rows_from_nth [where evs = "[Remote InviteToChannel, Sleep (of_int w)]"]) simp_all
  with h show "writes (batch_loop bs d rm'' 0 users) ! k
              = result_I_of (users ! k) ''Failed'' (''FloodWait_'' @ str_int w @ ''s'')"
    using batch_loop_all [of bs d rm'' 0 users] by simp
qed

theorem flood_wait_handling_witness:
  "raised_to_runner (invited (Some (flood_wait 30))) (FloodWaitError 30)
   \<and> loop_A settings_A False (\<lambda>i. invited (first_raises (flood_wait 30) i)) (\<lambda>i. 7) 2 0 0
       [p_almaz, p_dawit]
     = [Attempt ''+251911223344'', Remote ImportContacts, Remote InviteToChannel, Sleep 30,
        Attempt ''+251922334455'', Remote ImportContacts, Remote InviteToChannel,
        Write (result_of p_dawit ''Success'' ''Added''), Remote DeleteContacts]"
proof -
  have r: "raised_to_runner (invited (Some (flood_wait 30))) (FloodWaitError 30)"
    by (simp add: raised_to_runner_def invited_def flood_wait_def)
  have e: "loop_A settings_A False (\<lambda>i. invited (first_raises (flood_wait 30) i)) (\<lambda>i. 7) 2 0 0
       [p_almaz, p_dawit]
     = [Attempt ''+251911223344'', Remote ImportContacts, Remote InviteToChannel, Sleep 30,
        Attempt ''+251922334455'', Remote ImportContacts, Remote InviteToChannel,
        Write (result_of p_dawit ''Success'' ''Added''), Remote DeleteContacts]"
    by (simp add: invited_def first_raises_def flood_wait_def settings_A_def
      process_patient_def invite_step_def p_almaz_def p_dawit_def make_patient_def Let_def
      log_and_pace_def)
  from r e flood_wait_handling [of 0 settings_A "\<lambda>i. invited (first_raises (flood_wait 30) i)"
      "\<lambda>i. 7" 2 "[p_almaz, p_dawit]" 30]
  show ?thesis by blast
qed

section \<open>The daily limit\<close>




lemma successes_simps [simp]:
  "successes st [] = 0"
  "successes st (Write r # t) = (if st r = ''Success'' then 1 else 0) + successes st t"
  "successes st (Attempt k # t) = successes st t"
  "successes st (Sleep d # t) = successes st t"
  "successes st (Remote c # t) = successes st t"
  "successes st (Uncaught e # t) = successes st t"
  "successes st (t @ t') = successes st t + successes st t'"
  by (simp_all add: successes_def)

lemma successes_log_and_pace [simp]:
  "successes r_status (log_and_pace cfg n i c p st rs u r) = (if st = ''Success'' then 1 else 0)"
  by (simp add: log_and_pace_def result_of_def)

lemma invite_step_status:
  "invite_step x = Inr (st, rs) \<Longrightarrow> st \<in> {''Success'', ''Failed'', ''Skipped''}"
  by (auto simp: invite_step_def split: option.splits exc_kind.splits)




lemma successes_log_and_wait [simp]:
  "successes s_status (log_and_wait cfg c u fn st rs r) = (if st = ''Success'' then 1 else 0)"
  by (simp add: log_and_wait_def result_S_of_def)








section \<open>One record for each item\<close>

lemma recorded_count:
  "recorded_before_sleep pending t \<Longrightarrow>
   length (writes t) = length (attempts t) + (if pending then 1 else 0)"
  by (induction pending t rule: recorded_before_sleep.induct) auto

lemma recorded_log_and_pace:
  "recorded_before_sleep True (log_and_pace cfg n i c p st rs u r @ t) = recorded_before_sleep False t"
  by (simp add: log_and_pace_def)

lemma invite_step_Inl: "invite_step x = Inl e \<Longrightarrow> x = Some e"
  by (auto simp: invite_step_def split: option.splits exc_kind.splits)

lemma process_patient_recorded:
  "process_patient cfg dry n i c p rm r = (evs, c', k) \<Longrightarrow> dry \<or> \<not> short_wait rm \<Longrightarrow>
   recorded_before_sleep True (evs @ t) = recorded_before_sleep False t"
  by (auto simp: process_patient_def Let_def short_wait_def recorded_log_and_pace
      dest!: invite_step_Inl
      split: if_splits option.splits sum.splits exc_kind.splits prod.splits)

lemma process_patient_stop_recorded:
  "process_patient cfg dry n i c p rm r = (evs, c', Stop) \<Longrightarrow> recorded_before_sleep True evs"
  by (auto simp: process_patient_def Let_def
      split: if_splits option.splits sum.splits exc_kind.splits prod.splits)

lemma loop_A_recorded:
  "dry \<or> (\<forall>i. \<not> short_wait (rm i)) \<Longrightarrow>
   recorded_before_sleep False (loop_A cfg dry rm rnd n i c ps)"
proof (induction ps arbitrary: i c)
  case Nil
  then show ?case by simp
next
  case (Cons p ps)
  show ?case
  proof (cases "c \<ge> daily_limit cfg")
    case True
    then show ?thesis by simp
  next
    case False
    obtain evs c' k where pp: "process_patient cfg dry n i c p (rm i) (rnd i) = (evs, c', k)"
      by (cases "process_patient cfg dry n i c p (rm i) (rnd i)") auto
    have ok: "dry \<or> \<not> short_wait (rm i)" using Cons.prems by blast
    show ?thesis
    proof (cases k)
      case Next
      have "recorded_before_sleep False (loop_A cfg dry rm rnd n (Suc i) c' ps)"
        using Cons.prems by (rule Cons.IH)
      then show ?thesis
        using False pp Next by (simp add: process_patient_recorded [OF pp ok])
    next
      case Stop
      then show ?thesis using False pp process_patient_stop_recorded [of cfg dry n i c p "rm i" "rnd i" evs c']
        by simp
    qed
  qed
qed

lemma recorded_log_and_wait:
  "recorded_before_sleep True (log_and_wait cfg c u fn st rs r @ t) = recorded_before_sleep False t"
  by (simp add: log_and_wait_def)

lemma process_user_recorded:
  "process_user cfg False c u fn rm r = (evs, c', Next) \<Longrightarrow>
   recorded_before_sleep True (evs @ t) = recorded_before_sleep False t"
  by (auto simp: process_user_def recorded_log_and_wait
      split: if_splits option.splits exc_kind.splits)

lemma process_user_stop_recorded:
  "process_user cfg False c u fn rm r = (evs, c', Stop) \<Longrightarrow> \<not> send_flood_wait rm \<Longrightarrow>
   recorded_before_sleep True evs"
  by (auto simp: process_user_def send_flood_wait_def log_and_wait_def
      split: if_splits option.splits exc_kind.splits)

lemma loop_S_recorded:
  "\<forall>i. \<not> send_flood_wait (rm i) \<Longrightarrow>
   recorded_before_sleep False (loop_S cfg False rm rnd i c us)"
proof (induction us arbitrary: i c)
  case Nil
  then show ?case by simp
next
  case (Cons u us)
  show ?case
  proof (cases "c \<ge> daily_limit cfg \<or> row_get u ''first_name'' (Some ''Friend'') = None")
    case True
    then show ?thesis by auto
  next
    case False
    then obtain fn where fn: "row_get u ''first_name'' (Some ''Friend'') = Some fn" by auto
    obtain evs c' k where pp: "process_user cfg False c u fn (rm i) (rnd i) = (evs, c', k)"
      by (cases "process_user cfg False c u fn (rm i) (rnd i)") auto
    show ?thesis
    proof (cases k)
      case Next
      have "recorded_before_sleep False (loop_S cfg False rm rnd (Suc i) c' us)"
        using Cons.prems by (rule Cons.IH)
      then show ?thesis
        using False fn pp Next process_user_recorded [of cfg c u fn "rm i" "rnd i" evs c']
        by simp
    next
      case Stop
      then show ?thesis
        using False fn pp Cons.prems
          process_user_stop_recorded [of cfg c u fn "rm i" "rnd i" evs c']
        by simp
    qed
  qed
qed

lemma process_patient_writes: 
  "process_patient cfg dry n i c p rm r = (evs, c', k) \<Longrightarrow> length (writes evs) \<le> 1"
  by (auto simp: process_patient_def Let_def log_and_pace_def
      split: if_splits option.splits sum.splits exc_kind.splits prod.splits)

lemma loop_A_writes_le:
  "length (writes (loop_A cfg dry rm rnd n i c ps)) \<le> length (attempts (loop_A cfg dry rm rnd n i c ps))"
proof (induction ps arbitrary: i c)
  case Nil
  then show ?case by simp
next
  case (Cons p ps)
  show ?case
  proof (cases "c \<ge> daily_limit cfg")
    case True
    then show ?thesis by simp
  next
    case False
    obtain evs c' k where pp: "process_patient cfg dry n i c p (rm i) (rnd i) = (evs, c', k)"
      by (cases "process_patient cfg dry n i c p (rm i) (rnd i)") auto
    have a: "attempts evs = []" using pp by (rule attempts_process_patient)
    have w: "length (writes evs) \<le> 1" using pp by (rule process_patient_writes)
    show ?thesis using False pp a w Cons.IH [of "Suc i" c'] by (cases k) auto
  qed
qed

lemma process_user_writes:
  "process_user cfg dry c u fn rm r = (evs, c', k) \<Longrightarrow> length (writes evs) \<le> 1"
  by (auto simp: process_user_def log_and_wait_def split: if_splits option.splits exc_kind.splits)

lemma loop_S_writes_le:
  "length (writes (loop_S cfg dry rm rnd i c us)) \<le> length (attempts (loop_S cfg dry rm rnd i c us))"
proof (induction us arbitrary: i c)
  case Nil
  then show ?case by simp
next
  case (Cons u us)
  show ?case
  proof (cases "c \<ge> daily_limit cfg \<or> row_get u ''first_name'' (Some ''Friend'') = None")
    case True
    then show ?thesis by auto
  next
    case False
    then obtain fn where fn: "row_get u ''first_name'' (Some ''Friend'') = Some fn" by auto
    obtain evs c' k where pp: "process_user cfg dry c u fn (rm i) (rnd i) = (evs, c', k)"
      by (cases "process_user cfg dry c u fn (rm i) (rnd i)") auto
    have a: "attempts evs = []" using pp by (rule attempts_process_user)
    have w: "length (writes evs) \<le> 1" using pp by (rule process_user_writes)
    show ?thesis using False fn pp a w Cons.IH [of "Suc i" c'] by (cases k) auto
  qed
qed

lemma main_A_recorded:
  "dry_run_flag w \<or> (\<forall>i. \<not> short_wait (answers w i)) \<Longrightarrow>
   recorded_before_sleep False (main_A cfg w)"
proof (cases "read_patient_csv (csv_file w)")
  case (Inl e)
  then show ?thesis by (simp add: main_A_def)
next
  case (Inr patients)
  assume "dry_run_flag w \<or> (\<forall>i. \<not> short_wait (answers w i))"
  then have "recorded_before_sleep False
     (loop_A cfg (dry_run_flag w) (answers w) (entropy w) (length (remaining_A w patients)) 0 0
        (remaining_A w patients))"
    by (rule loop_A_recorded)
  then show ?thesis using Inr by (simp add: main_A_def Let_def)
qed

lemma main_A_writes_le: "length (writes (main_A cfg w)) \<le> length (attempts (main_A cfg w))"
proof (cases "read_patient_csv (csv_file w)")
  case (Inl e)
  then show ?thesis by (simp add: main_A_def)
next
  case (Inr patients)
  then show ?thesis using loop_A_writes_le by (simp add: main_A_def Let_def)
qed

lemma main_S_recorded:
  "\<not> dry_run_flag_S w \<Longrightarrow> \<forall>i. \<not> send_flood_wait (answers_S w i) \<Longrightarrow>
   recorded_before_sleep False (main_S cfg w)"
proof (cases "csv_file_S w")
  case None
  then show ?thesis by (simp add: main_S_def)
next
  case (Some rows)
  assume "\<not> dry_run_flag_S w" "\<forall>i. \<not> send_flood_wait (answers_S w i)"
  then have "recorded_before_sleep False
     (loop_S cfg (dry_run_flag_S w) (answers_S w) (entropy_S w) 0 0 (users_to_contact w rows))"
    using loop_S_recorded [of "answers_S w" cfg "entropy_S w" 0 0 "users_to_contact w rows"] by simp
  then show ?thesis using Some by (simp add: main_S_def)
qed

lemma main_S_writes_le: "length (writes (main_S cfg w)) \<le> length (attempts (main_S cfg w))"
proof (cases "csv_file_S w")
  case None
  then show ?thesis by (simp add: main_S_def)
next
  case (Some rows)
  then show ?thesis using loop_S_writes_le by (simp add: main_S_def)
qed

lemma invite_users_counts:
  "length (writes (invite_users_to_channel cfg w)) = length (attempts (invite_users_to_channel cfg w))"
proof (cases "read_users_from_csv (csv_file_I w)")
  case (Inl e)
  then show ?thesis by (simp add: invite_users_to_channel_def)
next
  case (Inr users)
  show ?thesis
  proof (cases "authorized_I w \<and> users \<noteq> [] \<and> channel_found_I w \<and> 0 < batch_size cfg")
    case True
    then have "0 < nat (batch_size cfg)" by simp
    from batch_loop_all [OF this, of "batch_delay cfg" "answers_I w" 0 users]
    have "length (writes (batch_loop (nat (batch_size cfg)) (batch_delay cfg) (answers_I w) 0 users))
        = length (attempts (batch_loop (nat (batch_size cfg)) (batch_delay cfg) (answers_I w) 0 users))"
      by (simp add: length_rows_from)
    then show ?thesis using Inr True by (simp add: invite_users_to_channel_def)
  next
    case False
    then show ?thesis using Inr by (auto simp: invite_users_to_channel_def)
  qed
qed

text \<open>
  Claim C1 says that every attempted item gets exactly one record. In
  \<open>add_patients_to_channel\<close> an item whose invitation raises a \<open>FloodWaitError\<close> of 30
  seconds is attempted, the run sleeps and goes on, and no record is written for it: two items
  attempted, one record.
\<close>

theorem short_flood_wait_leaves_no_record:
  "attempts (main_A settings_A (world_A_of False (Some [almaz, dawit]) []
       (\<lambda>i. invited (first_raises (flood_wait 30) i))))
     = [''+251911223344'', ''+251922334455'']
   \<and> map r_phone (writes (main_A settings_A (world_A_of False (Some [almaz, dawit]) []
       (\<lambda>i. invited (first_raises (flood_wait 30) i)))))
     = [''+251922334455'']"
  by code_simp

text \<open>
  \<open>invite_users_to_channel\<close> collects the rows of a batch and appends them when the batch
  is over, after the one-second sleep of each of its items.
\<close>

lemma invite_users_writes_at_batch_end:
  "map (\<lambda>e. case e of Attempt k \<Rightarrow> ''attempt'' | Write r \<Rightarrow> ''write'' | Sleep d \<Rightarrow> ''sleep''
                | Remote c \<Rightarrow> ''remote'' | Uncaught x \<Rightarrow> ''uncaught'')
     (invite_users_to_channel settings_I_default (world_I_of (Some [abebe, sara]) [] (\<lambda>i. None)))
   = [''attempt'', ''remote'', ''sleep'', ''attempt'', ''remote'', ''sleep'', ''write'', ''write'']"
  by code_simp

text \<open>
  Claim C1, amended. In \<open>add_patients_to_channel\<close>, in a dry run and in every run in which
  no invitation raises a \<open>FloodWaitError\<close> of at most 600 seconds, every item taken up gets
  exactly one record, written before any sleep of that item, so that there are as many records
  as attempts; in every run there are at most as many. The same holds in \<open>safe_dm_invite\<close>
  for a run without \<open>--dry-run\<close> in which \<open>send_message\<close> raises no \<open>FloodWaitError\<close>.
  \<open>invite_users_to_channel\<close> writes as many records as it attempts users.
\<close>

theorem one_record_per_item:
  "(dry_run_flag w \<or> (\<forall>i. \<not> short_wait (answers w i))
      \<longrightarrow> recorded_before_sleep False (main_A cfg w)
          \<and> length (writes (main_A cfg w)) = length (attempts (main_A cfg w)))
   \<and> length (writes (main_A cfg w)) \<le> length (attempts (main_A cfg w))
   \<and> (\<not> dry_run_flag_S w' \<and> (\<forall>i. \<not> send_flood_wait (answers_S w' i))
      \<longrightarrow> recorded_before_sleep False (main_S cfg w')
          \<and> length (writes (main_S cfg w')) = length (attempts (main_S cfg w')))
   \<and> length (writes (main_S cfg w')) \<le> length (attempts (main_S cfg w'))
   \<and> length (writes (invite_users_to_channel cfg'' w''))
       = length (attempts (invite_users_to_channel cfg'' w''))"
proof (intro conjI impI)
  assume "dry_run_flag w \<or> (\<forall>i. \<not> short_wait (answers w i))"
  then show r: "recorded_before_sleep False (main_A cfg w)" by (rule main_A_recorded)
  show "length (writes (main_A cfg w)) = length (attempts (main_A cfg w))"
    using recorded_count [OF r] by simp
next
  show "length (writes (main_A cfg w)) \<le> length (attempts (main_A cfg w))"
    by (rule main_A_writes_le)
next
  assume "\<not> dry_run_flag_S w' \<and> (\<forall>i. \<not> send_flood_wait (answers_S w' i))"
  then show r: "recorded_before_sleep False (main_S cfg w')" by (intro main_S_recorded) simp_all
  show "length (writes (main_S cfg w')) = length (attempts (main_S cfg w'))"
    using recorded_count [OF r] by simp
next
  show "length (writes (main_S cfg w')) \<le> length (attempts (main_S cfg w'))"
    by (rule main_S_writes_le)
next
  show "length (writes (invite_users_to_channel cfg'' w''))
       = length (attempts (invite_users_to_channel cfg'' w''))"
    by (rule invite_users_counts)
qed

theorem one_record_per_item_witness:
  "(\<forall>i. \<not> short_wait (answers (world_A_of False (Some [almaz, dawit]) [] (\<lambda>i. invited None)) i))
   \<and> recorded_before_sleep False
        (main_A settings_A (world_A_of False (Some [almaz, dawit]) [] (\<lambda>i. invited None)))
   \<and> length (writes
        (main_A settings_A (world_A_of False (Some [almaz, dawit]) [] (\<lambda>i. invited None)))) = 2"
proof -
  let ?w = "world_A_of False (Some [almaz, dawit]) [] (\<lambda>i. invited None)"
  have h: "\<forall>i. \<not> short_wait (answers ?w i)"
    by (simp add: short_wait_def world_A_of_def invited_def)
  have a: "length (attempts (main_A settings_A ?w)) = 2" by code_simp
  from one_record_per_item [of ?w settings_A] h
  have "recorded_before_sleep False (main_A settings_A ?w)
        \<and> length (writes (main_A settings_A ?w)) = length (attempts (main_A settings_A ?w))"
    by blast
  with h a show ?thesis by simp
qed

section \<open>Duplicate keys in the input\<close>

lemma normalize_phone_empty: "normalize_phone [] = []"
  by (simp add: normalize_phone_def strip_def remove_char_def)

lemma get_strip_cell: "get_strip row k = Inr v \<Longrightarrow> cell row k = v"
  by (simp add: cell_def)

lemma phone_make_patient [simp]: "phone (make_patient cno nm ph) = ph"
  by (simp add: make_patient_def Let_def)

lemma read_patient_rows_dedup:
  "read_patient_rows seen rows = Inr ps \<Longrightarrow>
   distinct (map phone ps)
   \<and> set (map phone ps) = set (map key_of_row rows) - {[]} - seen
   \<and> (\<forall>p \<in> set ps. \<exists>r. find (\<lambda>r. key_of_row r = phone p) rows = Some r \<and> p = patient_of_row r)"
proof (induction rows arbitrary: seen ps)
  case Nil
  then show ?case by simp
next
  case (Cons row rows)
  from Cons.prems obtain nm ph cno where
    g: "get_strip row ''Name'' = Inr nm" "get_strip row ''C-Phone'' = Inr ph"
       "get_strip row ''Card No.'' = Inr cno"
    by (auto split: sum.splits)
  have key: "key_of_row row = normalize_phone ph"
    using g by (simp add: key_of_row_def get_strip_cell)
  have por: "patient_of_row row = make_patient cno nm (normalize_phone ph)"
    using g key by (simp add: patient_of_row_def get_strip_cell)
  consider (skip) "normalize_phone ph = [] \<or> normalize_phone ph \<in> seen"
    | (keep) "normalize_phone ph \<noteq> []" "normalize_phone ph \<notin> seen"
    by blast
  then show ?case
  proof cases
    case skip
    then have r: "read_patient_rows seen rows = Inr ps"
      using Cons.prems g by (auto simp: Let_def normalize_phone_empty split: if_splits)
    note IH = Cons.IH [OF r]
    have ne: "\<forall>p \<in> set ps. phone p \<noteq> key_of_row row"
    proof
      fix p assume "p \<in> set ps"
      then have "phone p \<in> set (map key_of_row rows) - {[]} - seen" using IH by auto
      then show "phone p \<noteq> key_of_row row" using skip key by auto
    qed
    have "set (map key_of_row (row # rows)) - {[]} - seen = set (map key_of_row rows) - {[]} - seen"
      using skip key by auto
    moreover have "\<forall>p \<in> set ps. \<exists>r. find (\<lambda>r. key_of_row r = phone p) (row # rows) = Some r \<and> p = patient_of_row r"
      using IH ne by (simp add: eq_commute)
    ultimately show ?thesis using IH by simp
  next
    case keep
    have nph: "ph \<noteq> []" using keep(1) normalize_phone_empty by auto
    from Cons.prems g keep nph obtain ps' where
      r: "read_patient_rows (insert (normalize_phone ph) seen) rows = Inr ps'"
      and ps: "ps = make_patient cno nm (normalize_phone ph) # ps'"
      by (auto simp: Let_def split: sum.splits)
    note IH = Cons.IH [OF r]
    have ne: "\<forall>p \<in> set ps'. phone p \<noteq> key_of_row row"
    proof
      fix p assume "p \<in> set ps'"
      then have "phone p \<in> set (map key_of_row rows) - {[]} - insert (normalize_phone ph) seen"
        using IH by auto
      then show "phone p \<noteq> key_of_row row" using key by auto
    qed
    have d: "distinct (map phone ps)" using ps IH ne key by auto
    have s: "set (map phone ps) = set (map key_of_row (row # rows)) - {[]} - seen"
      using ps IH key keep by auto
    have f: "\<forall>p \<in> set ps. \<exists>r. find (\<lambda>r. key_of_row r = phone p) (row # rows) = Some r \<and> p = patient_of_row r"
    proof
      fix p assume "p \<in> set ps"
      then consider "p = make_patient cno nm (normalize_phone ph)" | "p \<in> set ps'" using ps by auto
      then show "\<exists>r. find (\<lambda>r. key_of_row r = phone p) (row # rows) = Some r \<and> p = patient_of_row r"
      proof cases
        case 1
        then show ?thesis using key por by simp
      next
        case 2
        then show ?thesis using IH ne by (simp add: eq_commute)
      qed
    qed
    show ?thesis using d s f by simp
  qed
qed


lemma read_user_rows_dedup:
  "read_user_rows seen rows = Inr us \<Longrightarrow>
   distinct (filter (\<lambda>k. k \<noteq> []) (map user_id us))
   \<and> set (map user_id us) - {[]} = set (map (\<lambda>r. cell r ''user_id'') rows) - {[]} - seen
   \<and> (\<forall>u \<in> set us. user_id u \<noteq> [] \<longrightarrow>
         (\<exists>r. find (\<lambda>r. cell r ''user_id'' = user_id u) rows = Some r \<and> u = user_of_row r))
   \<and> filter (\<lambda>u. user_id u = []) us
       = map user_of_row (filter (\<lambda>r. cell r ''user_id'' = [] \<and> cell r ''username'' \<noteq> []) rows)"
proof (induction rows arbitrary: seen us)
  case Nil
  then show ?case by simp
next
  case (Cons row rows)
  from Cons.prems obtain uid un where
    g: "get_strip row ''user_id'' = Inr uid" "get_strip row ''username'' = Inr un"
    by (auto split: sum.splits)
  have c: "cell row ''user_id'' = uid" "cell row ''username'' = un"
    using g by (simp_all add: get_strip_cell)
  have uor: "user_of_row row = \<lparr>user_id = uid, username = un,
                        user_first_name = row_get row ''first_name'' (Some []),
                        user_last_name = row_get row ''last_name'' (Some [])\<rparr>"
    using c by (simp add: user_of_row_def)
  consider (skip) "(uid = [] \<and> un = []) \<or> (uid \<noteq> [] \<and> uid \<in> seen)"
    | (anon) "uid = []" "un \<noteq> []"
    | (keep) "uid \<noteq> []" "uid \<notin> seen"
    by blast
  then show ?case
  proof cases
    case skip
    then have r: "read_user_rows seen rows = Inr us"
      using Cons.prems g by (auto split: if_splits)
    note IH = Cons.IH [OF r]
    have ne: "\<forall>u \<in> set us. user_id u \<noteq> [] \<longrightarrow> user_id u \<noteq> uid"
    proof (intro ballI impI)
      fix u assume "u \<in> set us" "user_id u \<noteq> []"
      then have "user_id u \<in> set (map user_id us) - {[]}" by simp
      then have "user_id u \<notin> seen" using IH by blast
      then show "user_id u \<noteq> uid" using skip \<open>user_id u \<noteq> []\<close> by auto
    qed
    have "set (map (\<lambda>r. cell r ''user_id'') (row # rows)) - {[]} - seen
          = set (map (\<lambda>r. cell r ''user_id'') rows) - {[]} - seen"
      using skip c by auto
    moreover have "\<forall>u \<in> set us. user_id u \<noteq> [] \<longrightarrow>
         (\<exists>r. find (\<lambda>r. cell r ''user_id'' = user_id u) (row # rows) = Some r \<and> u = user_of_row r)"
      using IH ne c by (auto simp: eq_commute)
    moreover have "filter (\<lambda>u. user_id u = []) us
       = map user_of_row (filter (\<lambda>r. cell r ''user_id'' = [] \<and> cell r ''username'' \<noteq> []) (row # rows))"
      using IH skip c by auto
    ultimately show ?thesis using IH by simp
  next
    case anon
    from Cons.prems g anon obtain us' where
      r: "read_user_rows seen rows = Inr us'" and us: "us = user_of_row row # us'"
      by (auto simp: uor split: sum.splits)
    note IH = Cons.IH [OF r]
    have id: "user_id (user_of_row row) = []" using anon uor by simp
    have "\<forall>u \<in> set us. user_id u \<noteq> [] \<longrightarrow>
         (\<exists>r. find (\<lambda>r. cell r ''user_id'' = user_id u) (row # rows) = Some r \<and> u = user_of_row r)"
      using IH us id c anon by (auto simp: eq_commute)
    moreover have "set (map user_id us) - {[]} = set (map (\<lambda>r. cell r ''user_id'') (row # rows)) - {[]} - seen"
      using IH us id c anon by auto
    moreover have "filter (\<lambda>u. user_id u = []) us
       = map user_of_row (filter (\<lambda>r. cell r ''user_id'' = [] \<and> cell r ''username'' \<noteq> []) (row # rows))"
      using IH us id c anon by simp
    moreover have "distinct (filter (\<lambda>k. k \<noteq> []) (map user_id us))"
      using IH us id by simp
    ultimately show ?thesis by simp
  next
    case keep
    from Cons.prems g keep obtain us' where
      r: "read_user_rows (insert uid seen) rows = Inr us'" and us: "us = user_of_row row # us'"
      by (auto simp: uor split: sum.splits)
    note IH = Cons.IH [OF r]
    have id: "user_id (user_of_row row) = uid" using uor by simp
    have ne: "\<forall>u \<in> set us'. user_id u \<noteq> uid"
    proof
      fix u assume u: "u \<in> set us'"
      show "user_id u \<noteq> uid"
      proof (cases "user_id u = []")
        case True
        then show ?thesis using keep by simp
      next
        case False
        then have "user_id u \<in> set (map user_id us') - {[]}" using u by simp
        then have "user_id u \<notin> insert uid seen" using IH by blast
        then show ?thesis by simp
      qed
    qed
    have d: "distinct (filter (\<lambda>k. k \<noteq> []) (map user_id us))"
      using IH us id keep ne by auto
    have s: "set (map user_id us) - {[]} = set (map (\<lambda>r. cell r ''user_id'') (row # rows)) - {[]} - seen"
      using IH us id c keep by auto
    have f: "\<forall>u \<in> set us. user_id u \<noteq> [] \<longrightarrow>
         (\<exists>r. find (\<lambda>r. cell r ''user_id'' = user_id u) (row # rows) = Some r \<and> u = user_of_row r)"
      using IH us id c ne by (auto simp: eq_commute)
    have a: "filter (\<lambda>u. user_id u = []) us
       = map user_of_row (filter (\<lambda>r. cell r ''user_id'' = [] \<and> cell r ''username'' \<noteq> []) (row # rows))"
      using IH us id c keep by simp
    show ?thesis using d s f a by simp
  qed
qed

text \<open>
  Claim C7 says that the loaded list has exactly one entry per distinct key.
  \<open>read_users_from_csv\<close> removes duplicates by \<open>user_id\<close> only, and only when the
  \<open>user_id\<close> is not empty: a user given by username alone, listed twice, is loaded twice.
\<close>

theorem users_without_id_loaded_twice:
  "read_users_from_csv (Some [anon_bob, anon_bob]) = Inr [u_bob, u_bob]"
  by code_simp

text \<open>
  Claim C7, amended. \<open>read_patient_csv\<close> loads exactly one patient for each distinct
  normalised phone number of the file, built from the first row with that number.
  \<open>read_users_from_csv\<close> loads exactly one user for each distinct non-empty \<open>user_id\<close>,
  built from the first row with that \<open>user_id\<close>, and loads every row that has an empty
  \<open>user_id\<close> and a username, duplicates included.
\<close>

theorem csv_deduplication:
  "(read_patient_csv (Some rows) = Inr ps \<longrightarrow>
      distinct (map phone ps)
      \<and> set (map phone ps) = set (map key_of_row rows) - {[]}
      \<and> (\<forall>p \<in> set ps. \<exists>r. find (\<lambda>r. key_of_row r = phone p) rows = Some r \<and> p = patient_of_row r))
   \<and> (read_users_from_csv (Some rows') = Inr us \<longrightarrow>
      distinct (filter (\<lambda>k. k \<noteq> []) (map user_id us))
      \<and> set (map user_id us) - {[]} = set (map (\<lambda>r. cell r ''user_id'') rows') - {[]}
      \<and> (\<forall>u \<in> set us. user_id u \<noteq> [] \<longrightarrow>
            (\<exists>r. find (\<lambda>r. cell r ''user_id'' = user_id u) rows' = Some r \<and> u = user_of_row r))
      \<and> filter (\<lambda>u. user_id u = []) us
          = map user_of_row (filter (\<lambda>r. cell r ''user_id'' = [] \<and> cell r ''username'' \<noteq> []) rows'))"
proof (intro conjI impI)
  assume "read_patient_csv (Some rows) = Inr ps"
  then have r: "read_patient_rows {} rows = Inr ps" by (simp add: read_patient_csv_def)
  from read_patient_rows_dedup [OF r]
  show "distinct (map phone ps)"
    and "set (map phone ps) = set (map key_of_row rows) - {[]}"
    and "\<forall>p \<in> set ps. \<exists>r. find (\<lambda>r. key_of_row r = phone p) rows = Some r \<and> p = patient_of_row r"
    by simp_all
next
  assume "read_users_from_csv (Some rows') = Inr us"
  then have r: "read_user_rows {} rows' = Inr us" by (simp add: read_users_from_csv_def)
  from read_user_rows_dedup [OF r]
  show "distinct (filter (\<lambda>k. k \<noteq> []) (map user_id us))"
    and "set (map user_id us) - {[]} = set (map (\<lambda>r. cell r ''user_id'') rows') - {[]}"
    and "\<forall>u \<in> set us. user_id u \<noteq> [] \<longrightarrow>
            (\<exists>r. find (\<lambda>r. cell r ''user_id'' = user_id u) rows' = Some r \<and> u = user_of_row r)"
    and "filter (\<lambda>u. user_id u = []) us
          = map user_of_row (filter (\<lambda>r. cell r ''user_id'' = [] \<and> cell r ''username'' \<noteq> []) rows')"
    by simp_all
qed

theorem csv_deduplication_witness:
  "key_of_row almaz_again = key_of_row almaz
   \<and> read_patient_csv (Some [almaz, dawit, almaz_again]) = Inr [p_almaz, p_dawit]
   \<and> patient_of_row almaz = p_almaz"
proof -
  have k: "key_of_row almaz_again = key_of_row almaz" by code_simp
  have r: "read_patient_csv (Some [almaz, dawit, almaz_again]) = Inr [p_almaz, p_dawit]" by code_simp
  have p: "patient_of_row almaz = p_almaz" by code_simp
  from csv_deduplication [of "[almaz, dawit, almaz_again]" "[p_almaz, p_dawit]"] r
  have "distinct (map phone [p_almaz, p_dawit])" by blast
  with k r p show ?thesis by simp
qed

end
